theory Spec2Isabelle
  imports Main "HOL-Library.Word" "HOL-Library.Signed_Division"
begin

unbundle bit_operations_syntax

section \<open>Machine integers of the target\<close>

text \<open>
  The program is an xv6 user program for 64-bit RISC-V: \<open>int\<close> is a 32-bit two's
  complement integer. Values of type \<open>int\<close> are modelled as \<open>32 word\<close>; \<open>+\<close>, \<open>-\<close> and
  \<open>*\<close> wrap around, \<open>sint\<close> reads the signed value, and \<open><s\<close> is the signed comparison
  of C. Division and remainder of C truncate towards zero (\<open>sdiv\<close> and \<open>smod\<close> on the
  signed values).
\<close>

type_synonym cint = "32 word"

definition c_div :: "cint \<Rightarrow> cint \<Rightarrow> cint" where
  "c_div a b = word_of_int (sint a sdiv sint b)"

definition c_mod :: "cint \<Rightarrow> cint \<Rightarrow> cint" where
  "c_mod a b = word_of_int (sint a smod sint b)"

section \<open>The constants of \<open>matmul.c\<close>\<close>

definition N :: nat where
  "N = 10"

definition P :: nat where
  "P = 4"

section \<open>Work partitioning\<close>

text \<open>
  \<open>get_work_range(process_id, &start, &end)\<close>: the two out-parameters are returned as a
  pair. The macros \<open>N\<close> and \<open>P\<close> the function reads are its first two arguments here, so
  that it can be studied for every matrix size and worker count; the program itself
  passes 10 and 4. Division by \<open>P = 0\<close> is outside the program (the divisor is a macro
  constant); every statement below assumes \<open>0 < P\<close>. The sum \<open>base_rows + 1\<close> can only
  wrap when it is multiplied by \<open>extra_rows = 0\<close>.
\<close>

definition get_work_range :: "cint \<Rightarrow> cint \<Rightarrow> cint \<Rightarrow> cint \<times> cint" where
  "get_work_range n p process_id =
     (let base_rows = c_div n p;
          extra_rows = c_mod n p
      in if process_id <s extra_rows
         then (let start = process_id * (base_rows + 1)
               in (start, start + base_rows + 1))
         else (let start = extra_rows * (base_rows + 1) + (process_id - extra_rows) * base_rows
               in (start, start + base_rows)))"

text \<open>The rows of a half-open range \<open>[start, end)\<close>, as signed values.\<close>

definition row_set :: "cint \<times> cint \<Rightarrow> int set" where
  "row_set r = {sint (fst r) ..< sint (snd r)}"

text \<open>The size \<open>end - start\<close> of a range, computed as the program computes it.\<close>

definition range_size :: "cint \<times> cint \<Rightarrow> int" where
  "range_size r = sint (snd r - fst r)"

text \<open>
  The ideal-integer reading of the partition, used in the proofs only: the first row of
  worker \<open>i\<close> when nothing wraps. Worker \<open>i\<close> owns the rows from
  \<open>split_point n p i\<close> up to, not including, \<open>split_point n p (i + 1)\<close>.
\<close>

definition split_point :: "int \<Rightarrow> int \<Rightarrow> int \<Rightarrow> int" where
  "split_point n p i = i * (n sdiv p) + (if i < n smod p then i else n smod p)"

section \<open>Matrices and the global state\<close>

text \<open>
  \<open>int M[N][N]\<close> is a list of rows. The four global arrays of the program are the
  fields of \<open>globals\<close>; globals of a C program start zeroed. Loop counters and array
  indices only take values up to the matrix size, far below \<open>2^31\<close>, and are natural
  numbers here; the matrix elements and the accumulators are 32-bit.
\<close>

type_synonym matrix = "cint list list"

record globals =
  A :: matrix
  B :: matrix
  C :: matrix
  C_ref :: matrix

text \<open>The assignment \<open>M[i][j] = v\<close>.\<close>

definition mat_set :: "matrix \<Rightarrow> nat \<Rightarrow> nat \<Rightarrow> cint \<Rightarrow> matrix" where
  "mat_set m i j v = m[i := (m ! i)[j := v]]"

definition square :: "nat \<Rightarrow> matrix \<Rightarrow> bool" where
  "square n m \<longleftrightarrow> length m = n \<and> list_all (\<lambda>row. length row = n) m"

definition startup :: "nat \<Rightarrow> globals" where
  "startup n = \<lparr>A = replicate n (replicate n 0), B = replicate n (replicate n 0),
                 C = replicate n (replicate n 0), C_ref = replicate n (replicate n 0)\<rparr>"

subsection \<open>\<open>init_matrices\<close>\<close>

definition init_matrices :: "nat \<Rightarrow> globals \<Rightarrow> globals" where
  "init_matrices n =
     fold (\<lambda>i. fold (\<lambda>j g.
             g\<lparr>A := mat_set (A g) i j (of_nat i + of_nat j + 1),
               B := mat_set (B g) i j (if i = j then 2 else 1)\<rparr>) [0..<n]) [0..<n]"

subsection \<open>\<open>multiply_reference\<close>\<close>

definition multiply_reference :: "nat \<Rightarrow> globals \<Rightarrow> globals" where
  "multiply_reference n =
     fold (\<lambda>i. fold (\<lambda>j g.
             let sum = fold (\<lambda>k sum. sum + A g ! i ! k * B g ! k ! j) [0..<n] 0
             in g\<lparr>C_ref := mat_set (C_ref g) i j sum\<rparr>) [0..<n]) [0..<n]"

subsection \<open>\<open>compare_results\<close>\<close>

text \<open>
  The two nested loops with their early \<open>return 1\<close>, as one recursion over the loop
  state \<open>(i, j)\<close>: the end of the inner loop moves to the next row, the end of the outer
  loop returns 0.
\<close>

function compare_from :: "nat \<Rightarrow> globals \<Rightarrow> nat \<Rightarrow> nat \<Rightarrow> int" where
  "compare_from n g i j =
     (if i < n then
        (if j < n then
           (if C g ! i ! j \<noteq> C_ref g ! i ! j then 1
            else compare_from n g i (j + 1))
         else compare_from n g (i + 1) 0)
      else 0)"
  by pat_completeness auto
termination
  by (relation "measures [\<lambda>(n, g, i, j). n - i, \<lambda>(n, g, i, j). Suc n - j]") auto

definition compare_results :: "nat \<Rightarrow> globals \<Rightarrow> int" where
  "compare_results n g = compare_from n g 0 0"

text \<open>
  The same scan with a ghost counter of the element comparisons it makes (the counter is
  not in the source; it records how far the scan went).
\<close>

function scan_from :: "nat \<Rightarrow> globals \<Rightarrow> nat \<Rightarrow> nat \<Rightarrow> nat \<Rightarrow> int \<times> nat" where
  "scan_from n g i j cnt =
     (if i < n then
        (if j < n then
           (if C g ! i ! j \<noteq> C_ref g ! i ! j then (1, cnt + 1)
            else scan_from n g i (j + 1) (cnt + 1))
         else scan_from n g (i + 1) 0 cnt)
      else (0, cnt))"
  by pat_completeness auto
termination
  by (relation "measures [\<lambda>(n, g, i, j, cnt). n - i, \<lambda>(n, g, i, j, cnt). Suc n - j]") auto

section \<open>Bytes, channels and console output\<close>

text \<open>
  The child hands \<open>(char*)outbuf\<close> to \<open>write\<close> and the parent hands \<open>(char*)inbuf\<close> to
  \<open>read\<close>: an \<open>int\<close> array is seen as bytes, four per element, least significant byte
  first (RISC-V is little-endian).
\<close>

type_synonym byte = "8 word"

definition int_bytes :: "cint \<Rightarrow> byte list" where
  "int_bytes w = [ucast w, ucast (drop_bit 8 w), ucast (drop_bit 16 w), ucast (drop_bit 24 w)]"

definition bytes_int :: "byte list \<Rightarrow> cint" where
  "bytes_int bs =
     ucast (bs ! 0) OR push_bit 8 (ucast (bs ! 1)) OR push_bit 16 (ucast (bs ! 2))
       OR push_bit 24 (ucast (bs ! 3))"

text \<open>The bytes of an \<open>int\<close> array, and element \<open>idx\<close> of an \<open>int\<close> array held as bytes.\<close>

definition ints_bytes :: "cint list \<Rightarrow> byte list" where
  "ints_bytes xs = concat (map int_bytes xs)"

definition load_int :: "byte list \<Rightarrow> nat \<Rightarrow> cint" where
  "load_int buf idx = bytes_int (take 4 (drop (4 * idx) buf))"

text \<open>Copying \<open>data\<close> into a buffer at a byte offset, as \<open>read\<close> does.\<close>

definition store :: "byte list \<Rightarrow> nat \<Rightarrow> byte list \<Rightarrow> byte list" where
  "store buf off data = take off buf @ data @ drop (off + length data) buf"

text \<open>The lines the program prints; the matrices of \<open>print_matrix\<close> are kept as values.\<close>

datatype message =
    Banner nat nat
  | Pipe_failed nat
  | Fork_failed nat
  | Child_write_failed nat
  | Parent_read_failed nat
  | Result_matrix matrix
  | Reference_matrix matrix
  | Success
  | Error_differs

text \<open>
  Modelled from the spec: the kernel's \<open>pipe\<close>, \<open>fork\<close>, \<open>write\<close> and \<open>read\<close> are not among
  the sources. The spec describes the channel as an ordered, reliable, unidirectional
  byte stream whose reads and writes may be partial and may end early with closure or
  an error. What the kernel decides is a parameter of the model, \<open>env\<close>: the return
  value of each \<open>pipe\<close> and \<open>fork\<close> call, and for the \<open>k\<close>-th \<open>write\<close> of child \<open>i\<close> and the
  \<open>k\<close>-th \<open>read\<close> from child \<open>i\<close> either a value \<open>\<le> 0\<close> (the call fails and returns it) or
  the largest number of bytes the kernel moves in that call. The contents of the
  uninitialised buffers \<open>outbuf\<close> and \<open>inbuf\<close> are parameters too.
\<close>

record env =
  pipe_ret :: "nat \<Rightarrow> int"
  fork_ret :: "nat \<Rightarrow> int"
  write_ret :: "nat \<Rightarrow> nat \<Rightarrow> int"
  read_ret :: "nat \<Rightarrow> nat \<Rightarrow> int"
  child_stack :: "nat \<Rightarrow> nat \<Rightarrow> cint"
  parent_stack :: "nat \<Rightarrow> nat \<Rightarrow> byte"

text \<open>
  Modelled from the spec: \<open>write(fd, data, length data)\<close> on a channel holding \<open>chan\<close>. It
  fails with \<open>ret \<le> 0\<close>, or appends the first \<open>min ret (length data)\<close> bytes and returns
  their number.
\<close>

definition sys_write :: "int \<Rightarrow> byte list \<Rightarrow> byte list \<Rightarrow> int \<times> byte list" where
  "sys_write ret chan data =
     (if ret \<le> 0 then (ret, chan)
      else (let m = min (nat ret) (length data) in (int m, chan @ take m data)))"

text \<open>
  Modelled from the spec: \<open>read(fd, buf, n)\<close> on a channel holding \<open>chan\<close> whose writer
  has finished. It fails with \<open>ret \<le> 0\<close>, or delivers the first
  \<open>min ret (min n (length chan))\<close> bytes; on an empty channel that is 0, the end of the
  stream. The result is the return value, the bytes delivered and the channel left.
\<close>

definition sys_read :: "int \<Rightarrow> byte list \<Rightarrow> nat \<Rightarrow> int \<times> byte list \<times> byte list" where
  "sys_read ret chan n =
     (if ret \<le> 0 then (ret, [], chan)
      else (let m = min (nat ret) (min n (length chan)) in (int m, take m chan, drop m chan)))"

section \<open>\<open>main\<close>: the children\<close>

text \<open>
  The call \<open>get_work_range(i, &start, &end)\<close> in \<open>main\<close>, for matrix size \<open>n\<close> and \<open>p\<close>
  workers, with \<open>start\<close> and \<open>end\<close> read as row indices. For \<open>i < p\<close> both lie between 0 and
  \<open>n\<close> (\<open>work_range_eq\<close> below), so nothing is lost by reading them as natural numbers.
  The counts \<open>(end - start) * N\<close> and \<open>sizeof(int) * out_count\<close> derived from them are
  natural numbers too; they are the program's \<open>int\<close>s as long as \<open>4 * n * n < 2^31\<close>.
\<close>

definition work_range :: "nat \<Rightarrow> nat \<Rightarrow> nat \<Rightarrow> nat \<times> nat" where
  "work_range n p i =
     (case get_work_range (of_nat n) (of_nat p) (of_nat i) of
        (start, end) \<Rightarrow> (nat (sint start), nat (sint end)))"

text \<open>
  The compute loops of child \<open>i\<close> over its copy \<open>g\<close> of the globals: the result is
  \<open>outbuf\<close>, which starts with the arbitrary contents \<open>outbuf0\<close>.
\<close>

definition child_compute :: "nat \<Rightarrow> globals \<Rightarrow> nat \<Rightarrow> nat \<Rightarrow> cint list \<Rightarrow> cint list" where
  "child_compute n g start end outbuf0 =
     fst (fold (\<lambda>r. fold (\<lambda>c (outbuf, idx).
                 let sum = fold (\<lambda>k sum. sum + A g ! r ! k * B g ! k ! c) [0..<n] 0
                 in (outbuf[idx := sum], idx + 1)) [0..<n]) [start..<end] (outbuf0, 0))"

text \<open>
  The write loop of child \<open>i\<close>. The state is \<open>written\<close>, the number \<open>k\<close> of \<open>write\<close> calls
  made so far, the channel and the child's console output; \<open>buf\<close> is \<open>(char*)outbuf\<close>.
\<close>

function write_loop ::
  "(nat \<Rightarrow> int) \<Rightarrow> nat \<Rightarrow> byte list \<Rightarrow> nat \<Rightarrow> nat \<Rightarrow> nat \<Rightarrow> byte list \<Rightarrow> message list
     \<Rightarrow> nat \<times> nat \<times> byte list \<times> message list" where
  "write_loop wr i buf bytes written k chan out =
     (if written < bytes then
        (case sys_write (wr k) chan (take (bytes - written) (drop written buf)) of
           (w, chan') \<Rightarrow>
             if w \<le> 0 then (written, k + 1, chan', out @ [Child_write_failed i])
             else write_loop wr i buf bytes (written + nat w) (k + 1) chan' out)
      else (written, k, chan, out))"
  by pat_completeness auto
termination
  by (relation "measure (\<lambda>(wr, i, buf, bytes, written, k, chan, out). bytes - written)") auto

text \<open>
  Child \<open>i\<close> from its \<open>fork\<close> to its \<open>exit(0)\<close>: the final \<open>written\<close>, the number of \<open>write\<close>
  calls, the bytes it left in its channel and its console output.
\<close>

definition child :: "nat \<Rightarrow> nat \<Rightarrow> env \<Rightarrow> globals \<Rightarrow> nat \<Rightarrow> nat \<times> nat \<times> byte list \<times> message list" where
  "child n p e g i =
     (case work_range n p i of
        (start, end) \<Rightarrow>
          let out_count = (end - start) * n;
              outbuf = child_compute n g start end (map (child_stack e i) [0..<out_count]);
              bytes = 4 * out_count
          in write_loop (write_ret e i) i (ints_bytes outbuf) bytes 0 0 [] [])"

section \<open>\<open>main\<close>: the parent\<close>

text \<open>
  The read loop for child \<open>i\<close>. The state is \<open>inbuf\<close> (as bytes), \<open>offset\<close>, the number
  \<open>k\<close> of \<open>read\<close> calls made so far, the channel and the parent's console output.
\<close>

function read_loop ::
  "(nat \<Rightarrow> int) \<Rightarrow> nat \<Rightarrow> nat \<Rightarrow> byte list \<Rightarrow> nat \<Rightarrow> nat \<Rightarrow> byte list \<Rightarrow> message list
     \<Rightarrow> byte list \<times> nat \<times> nat \<times> byte list \<times> message list" where
  "read_loop rd i bytes inbuf offset k chan out =
     (if offset < bytes then
        (case sys_read (rd k) chan (bytes - offset) of
           (r, data, chan') \<Rightarrow>
             if r \<le> 0 then (inbuf, offset, k + 1, chan', out @ [Parent_read_failed i])
             else read_loop rd i bytes (store inbuf offset data) (offset + nat r) (k + 1) chan' out)
      else (inbuf, offset, k, chan, out))"
  by pat_completeness auto
termination
  by (relation "measure (\<lambda>(rd, i, bytes, inbuf, offset, k, chan, out). bytes - offset)") auto

text \<open>
  The parent reading from child \<open>i\<close>, whose channel holds \<open>chan\<close>: \<open>inbuf\<close> starts with
  arbitrary contents.
\<close>

definition parent_read ::
  "nat \<Rightarrow> nat \<Rightarrow> env \<Rightarrow> nat \<Rightarrow> byte list \<Rightarrow> message list
     \<Rightarrow> byte list \<times> nat \<times> nat \<times> byte list \<times> message list" where
  "parent_read n p e i chan out =
     (case work_range n p i of
        (start, end) \<Rightarrow>
          let in_count = (end - start) * n;
              bytes = 4 * in_count
          in read_loop (read_ret e i) i bytes (map (parent_stack e i) [0..<bytes]) 0 0 chan out)"

text \<open>The loops that copy \<open>inbuf\<close> into the rows \<open>start, \<dots>, end - 1\<close> of \<open>C\<close>.\<close>

definition copy_block :: "nat \<Rightarrow> nat \<Rightarrow> nat \<Rightarrow> byte list \<Rightarrow> globals \<Rightarrow> globals" where
  "copy_block n start end inbuf g =
     fst (fold (\<lambda>r. fold (\<lambda>c (g, idx).
                 (g\<lparr>C := mat_set (C g) r c (load_int inbuf idx)\<rparr>, idx + 1)) [0..<n])
            [start..<end] (g, 0))"

text \<open>
  One round of the collecting loop: read from child \<open>i\<close>, then copy, whatever the read
  loop achieved. \<open>chans i\<close> is what child \<open>i\<close> left in its channel.
\<close>

definition collect ::
  "nat \<Rightarrow> nat \<Rightarrow> env \<Rightarrow> (nat \<Rightarrow> byte list) \<Rightarrow> nat \<Rightarrow> globals \<times> message list
     \<Rightarrow> globals \<times> message list" where
  "collect n p e chans i s =
     (case s of (g, out) \<Rightarrow>
        (case parent_read n p e i (chans i) out of
           (inbuf, offset, k, chan, out') \<Rightarrow>
             (copy_block n (fst (work_range n p i)) (snd (work_range n p i)) inbuf g, out')))"

text \<open>
  The outcome of a run: the exit status of the parent, its console output, the console
  output of each child that ran, and the parent's globals at exit.
\<close>

record outcome =
  exit_status :: int
  console :: "message list"
  child_console :: "message list list"
  final :: globals

text \<open>
  \<open>main\<close> after \<open>init_matrices()\<close>, from the parent's globals \<open>g0\<close>. A failing \<open>pipe\<close> or
  \<open>fork\<close> ends the run with \<open>exit(1)\<close>. The children run concurrently with the parent;
  each channel has one writer and one reader and the parent's reads block until bytes
  or the end of the stream arrive, so the bytes the parent sees on channel \<open>i\<close> are those
  child \<open>i\<close> wrote, in order: the model lets every child finish before the parent
  collects. Closing descriptors and \<open>wait\<close> change nothing that is observed here and are
  left out.
\<close>

definition main_from :: "nat \<Rightarrow> nat \<Rightarrow> env \<Rightarrow> globals \<Rightarrow> outcome" where
  "main_from n p e g0 =
     (let g = multiply_reference n g0 in
      case List.find (\<lambda>i. pipe_ret e i < 0) [0..<p] of
        Some i \<Rightarrow>
          \<lparr>exit_status = 1, console = [Banner n p, Pipe_failed i], child_console = [], final = g\<rparr>
      | None \<Rightarrow>
          (case List.find (\<lambda>i. fork_ret e i < 0) [0..<p] of
             Some i \<Rightarrow>
               \<lparr>exit_status = 1, console = [Banner n p, Fork_failed i],
                 child_console = map (\<lambda>j. snd (snd (snd (child n p e g j)))) [0..<i], final = g\<rparr>
           | None \<Rightarrow>
               (let kids = map (child n p e g) [0..<p];
                    chans = (\<lambda>i. fst (snd (snd (kids ! i))));
                    (g', out) = fold (collect n p e chans) [0..<p] (g, [Banner n p]);
                    verdict = (if compare_results n g' = 0 then Success else Error_differs)
                in \<lparr>exit_status = 0,
                     console = out @ [Result_matrix (C g'), Reference_matrix (C_ref g'), verdict],
                     child_console = map (\<lambda>k. snd (snd (snd k))) kids, final = g'\<rparr>)))"

definition main :: "nat \<Rightarrow> nat \<Rightarrow> env \<Rightarrow> outcome" where
  "main n p e = main_from n p e (init_matrices n (startup n))"

section \<open>Notions used in the statements\<close>

text \<open>
  The accumulator \<open>sum\<close> after \<open>m\<close> iterations of the \<open>k\<close>-loop for the cell
  \<open>(r, c)\<close>; both compute kernels run this loop for \<open>m = n\<close> iterations.
\<close>

definition acc_upto :: "matrix \<Rightarrow> matrix \<Rightarrow> nat \<Rightarrow> nat \<Rightarrow> nat \<Rightarrow> cint" where
  "acc_upto a b r c m = fold (\<lambda>k sum. sum + a ! r ! k * b ! k ! c) [0..<m] 0"

text \<open>
  The first row of worker \<open>i\<close> as a natural number; worker \<open>i\<close> owns the rows from
  \<open>first_row n p i\<close> up to, not including, \<open>first_row n p (Suc i)\<close>.
\<close>

definition first_row :: "nat \<Rightarrow> nat \<Rightarrow> nat \<Rightarrow> nat" where
  "first_row n p i = i * (n div p) + min i (n mod p)"

text \<open>
  The rows that the copy loops read out of \<open>inbuf\<close> for the range \<open>[start, end)\<close>.
\<close>

definition block_rows :: "nat \<Rightarrow> nat \<Rightarrow> nat \<Rightarrow> byte list \<Rightarrow> matrix" where
  "block_rows n start end inbuf =
     map (\<lambda>r. map (\<lambda>c. load_int inbuf ((r - start) * n + c)) [0..<n]) [start..<end]"

text \<open>
  The rows \<open>start, \<dots>, end - 1\<close> of the product, every cell the accumulator after \<open>n\<close>
  iterations.
\<close>

definition ref_rows :: "nat \<Rightarrow> globals \<Rightarrow> nat \<Rightarrow> nat \<Rightarrow> matrix" where
  "ref_rows n g start end =
     map (\<lambda>r. map (\<lambda>c. acc_upto (A g) (B g) r c n) [0..<n]) [start..<end]"

text \<open>
  The parent's read loop for child \<open>i\<close> in a run whose children started from the globals
  \<open>g\<close>: final \<open>inbuf\<close>, final \<open>offset\<close>, number of \<open>read\<close> calls, what is left in the
  channel, and the messages the loop printed.
\<close>

definition worker_read ::
  "nat \<Rightarrow> nat \<Rightarrow> env \<Rightarrow> globals \<Rightarrow> nat \<Rightarrow> byte list \<times> nat \<times> nat \<times> byte list \<times> message list" where
  "worker_read n p e g i = parent_read n p e i (fst (snd (snd (child n p e g i)))) []"

text \<open>
  The byte count \<open>(end - start) * N * sizeof(int)\<close> that both ends compute for worker \<open>i\<close>.
\<close>

definition expected_bytes :: "nat \<Rightarrow> nat \<Rightarrow> nat \<Rightarrow> nat" where
  "expected_bytes n p i = 4 * ((snd (work_range n p i) - fst (work_range n p i)) * n)"

text \<open>
  The bytes child \<open>i\<close> has to send: its rows of the product, row-major.
\<close>

definition worker_stream :: "nat \<Rightarrow> nat \<Rightarrow> globals \<Rightarrow> nat \<Rightarrow> byte list" where
  "worker_stream n p g i =
     ints_bytes (concat (ref_rows n g (fst (work_range n p i)) (snd (work_range n p i))))"

text \<open>
  The matrix \<open>C\<close> the collecting loop leaves, block by block.
\<close>

definition assembled :: "nat \<Rightarrow> nat \<Rightarrow> env \<Rightarrow> globals \<Rightarrow> matrix" where
  "assembled n p e g =
     concat (map (\<lambda>i. block_rows n (fst (work_range n p i)) (snd (work_range n p i))
                         (fst (worker_read n p e g i))) [0..<p])"

text \<open>
  What the collecting loop prints.
\<close>

definition read_messages :: "nat \<Rightarrow> nat \<Rightarrow> env \<Rightarrow> globals \<Rightarrow> message list" where
  "read_messages n p e g =
     concat (map (\<lambda>i. snd (snd (snd (snd (worker_read n p e g i))))) [0..<p])"

text \<open>
  The rows of a matrix in a half-open range.
\<close>

definition rows_of :: "matrix \<Rightarrow> nat \<times> nat \<Rightarrow> matrix" where
  "rows_of m r = take (snd r - fst r) (drop (fst r) m)"

text \<open>
  The exact integer value of the accumulator for cell \<open>(i, j)\<close> after \<open>m\<close> iterations, when
  \<open>A[i][k] = i + k + 1\<close> and \<open>B[k][j]\<close> is 2 on the diagonal and 1 elsewhere.
\<close>

definition ideal_sum :: "nat \<Rightarrow> nat \<Rightarrow> nat \<Rightarrow> int" where
  "ideal_sum i j m = (\<Sum>k = 0..<m. (int i + int k + 1) * (if k = j then 2 else 1))"

text \<open>
  Three environments for concrete runs. In the first every call succeeds, a \<open>write\<close> moves
  at most 7 bytes and a \<open>read\<close> at most 5; in the second the third \<open>read\<close> from child 0
  returns 0; in the third the third \<open>read\<close> from child 1 returns 0 and \<open>inbuf\<close> starts
  with zero bytes.
\<close>

definition chunky_env :: env where
  "chunky_env = \<lparr>pipe_ret = (\<lambda>i. 0), fork_ret = (\<lambda>i. int i + 3),
     write_ret = (\<lambda>i k. 7), read_ret = (\<lambda>i k. 5),
     child_stack = (\<lambda>i k. 153), parent_stack = (\<lambda>i k. 153)\<rparr>"

definition faulty_env :: env where
  "faulty_env = chunky_env\<lparr>read_ret := (\<lambda>i k. if i = 0 \<and> k = 2 then 0 else 5)\<rparr>"

definition lucky_env :: env where
  "lucky_env = chunky_env\<lparr>read_ret := (\<lambda>i k. if i = 1 \<and> k = 2 then 0 else 5),
     parent_stack := (\<lambda>i k. 0)\<rparr>"

declare compare_from.simps [simp del] scan_from.simps [simp del]

declare write_loop.simps [simp del] read_loop.simps [simp del]

section \<open>Truncating division on the integers\<close>

lemma sdiv_smod_nonneg:
  fixes n p :: int
  assumes "0 \<le> n" "0 < p"
  shows "n sdiv p = n div p" "n smod p = n mod p"
  using assms by (simp_all add: signed_divide_int_def signed_modulo_int_def sgn_if)

lemma sdiv_smod_neg:
  fixes n p :: int
  assumes "n < 0" "0 < p"
  shows "n sdiv p = - ((- n) div p)" "n smod p = - ((- n) mod p)"
  using assms by (simp_all add: signed_divide_int_def signed_modulo_int_def sgn_if)

lemma sdiv_smod_facts:
  fixes n p :: int
  assumes "0 < p"
  shows "p * (n sdiv p) + n smod p = n"
    and "0 \<le> n \<Longrightarrow> 0 \<le> n sdiv p \<and> 0 \<le> n smod p \<and> n smod p < p"
    and "n < 0 \<Longrightarrow> n sdiv p \<le> 0 \<and> n smod p \<le> 0 \<and> - p < n smod p"
proof -
  show "p * (n sdiv p) + n smod p = n"
    by (rule mult_sdiv_smod_eq)
  show "0 \<le> n \<Longrightarrow> 0 \<le> n sdiv p \<and> 0 \<le> n smod p \<and> n smod p < p"
    using assms by (simp add: sdiv_smod_nonneg pos_imp_zdiv_nonneg_iff)
  show "n < 0 \<Longrightarrow> n sdiv p \<le> 0 \<and> n smod p \<le> 0 \<and> - p < n smod p"
    using assms by (simp add: sdiv_smod_neg pos_imp_zdiv_nonneg_iff)
qed

lemma split_point_step:
  assumes "0 < p" "0 \<le> i"
  shows "split_point n p (i + 1) =
    split_point n p i + n sdiv p + (if i < n smod p then 1 else 0)"
  using assms sdiv_smod_facts(3)[of p n] sdiv_smod_facts(2)[of p n]
  by (cases "0 \<le> n") (auto simp: split_point_def algebra_simps)

lemma split_point_0:
  assumes "0 < p" "0 \<le> n"
  shows "split_point n p 0 = 0"
  using assms sdiv_smod_facts(2)[of p n] by (auto simp: split_point_def)

lemma split_point_p:
  assumes "0 < p"
  shows "split_point n p p = n"
proof -
  have "\<not> p < n smod p"
    using assms sdiv_smod_facts(3)[of p n] sdiv_smod_facts(2)[of p n]
    by (cases "0 \<le> n") auto
  then show ?thesis
    using sdiv_smod_facts(1)[OF assms, of n] by (simp add: split_point_def)
qed

lemma split_point_bounds:
  assumes "0 < p" "0 \<le> i" "i \<le> p"
  shows "min 0 n \<le> split_point n p i \<and> split_point n p i \<le> max 0 n"
proof (cases "0 \<le> n")
  case True
  note f = sdiv_smod_facts(2)[OF assms(1) True] sdiv_smod_facts(1)[OF assms(1), of n]
  have "i * (n sdiv p) \<le> p * (n sdiv p)"
    using assms f by (simp add: mult_right_mono)
  moreover have "0 \<le> i * (n sdiv p)"
    using assms f by simp
  ultimately show ?thesis
    using True f assms by (auto simp: split_point_def)
next
  case False
  then have neg: "n < 0" by simp
  note f = sdiv_smod_facts(3)[OF assms(1) neg] sdiv_smod_facts(1)[OF assms(1), of n]
  have "p * (n sdiv p) \<le> i * (n sdiv p)"
    using assms f by (simp add: mult_right_mono_neg)
  moreover have "i * (n sdiv p) \<le> 0"
    using assms f by (simp add: mult_nonneg_nonpos)
  ultimately show ?thesis
    using neg f assms by (auto simp: split_point_def)
qed

section \<open>The partition in 32-bit arithmetic agrees with its ideal reading\<close>

lemma sint_word_of_int_32:
  assumes "- 2147483648 \<le> k" "k < 2147483648"
  shows "sint (word_of_int k :: cint) = k"
  using assms by (simp add: signed_of_int signed_take_bit_int_eq_self)

lemma sint_cint_bounds: "- 2147483648 \<le> sint (w :: cint)" "sint (w :: cint) < 2147483648"
  using sint_ge[of w] sint_lt[of w] by simp_all

lemma get_work_range_word_of_int:
  fixes n p i :: cint
  assumes "0 < sint p" "0 \<le> sint i"
  shows "get_work_range n p i =
    (word_of_int (split_point (sint n) (sint p) (sint i)),
     word_of_int (split_point (sint n) (sint p) (sint i + 1)))"
proof -
  define b e where "b = sint n sdiv sint p" and "e = sint n smod sint p"
  have e_range: "- 2147483648 \<le> e" "e < 2147483648"
    using sdiv_smod_facts(2)[OF assms(1), of "sint n"] sdiv_smod_facts(3)[OF assms(1), of "sint n"]
      sint_cint_bounds[of p]
    by (cases "0 \<le> sint n"; simp add: e_def)+
  have se: "sint (word_of_int e :: cint) = e"
    using e_range by (rule sint_word_of_int_32)
  have i_eq: "i = word_of_int (sint i)" by simp
  have step: "split_point (sint n) (sint p) (sint i + 1) =
    split_point (sint n) (sint p) (sint i) + b + (if sint i < e then 1 else 0)"
    using split_point_step[OF assms] by (simp add: b_def e_def)
  show ?thesis
  proof (cases "sint i < e")
    case True
    have "get_work_range n p i =
       (i * (word_of_int b + 1), i * (word_of_int b + 1) + word_of_int b + 1)"
      using True se by (simp add: get_work_range_def c_div_def c_mod_def Let_def
          word_sless_alt b_def e_def)
    also have "i * (word_of_int b + 1) = (word_of_int (sint i * (b + 1)) :: cint)"
      by simp
    finally show ?thesis
      using True unfolding step
      by (simp add: split_point_def b_def e_def algebra_simps)
  next
    case False
    have "get_work_range n p i =
       (word_of_int e * (word_of_int b + 1) + (i - word_of_int e) * word_of_int b,
        word_of_int e * (word_of_int b + 1) + (i - word_of_int e) * word_of_int b + word_of_int b)"
      using False se by (simp add: get_work_range_def c_div_def c_mod_def Let_def
          word_sless_alt b_def e_def)
    also have "word_of_int e * (word_of_int b + 1) + (i - word_of_int e) * word_of_int b
       = (word_of_int (e * (b + 1) + (sint i - e) * b) :: cint)"
      by simp
    finally show ?thesis
      using False unfolding step
      by (simp add: split_point_def b_def e_def algebra_simps)
  qed
qed

lemma get_work_range_sint:
  fixes n p i :: cint
  assumes "0 < sint p" "0 \<le> sint i" "sint i < sint p"
  shows "sint (fst (get_work_range n p i)) = split_point (sint n) (sint p) (sint i)"
    and "sint (snd (get_work_range n p i)) = split_point (sint n) (sint p) (sint i + 1)"
proof -
  have b1: "min 0 (sint n) \<le> split_point (sint n) (sint p) (sint i)"
      "split_point (sint n) (sint p) (sint i) \<le> max 0 (sint n)"
    using split_point_bounds[of "sint p" "sint i" "sint n"] assms by simp_all
  have b2: "min 0 (sint n) \<le> split_point (sint n) (sint p) (sint i + 1)"
      "split_point (sint n) (sint p) (sint i + 1) \<le> max 0 (sint n)"
    using split_point_bounds[of "sint p" "sint i + 1" "sint n"] assms by simp_all
  show "sint (fst (get_work_range n p i)) = split_point (sint n) (sint p) (sint i)"
    using b1 sint_cint_bounds[of n]
    by (simp add: get_work_range_word_of_int[OF assms(1,2)] sint_word_of_int_32)
  show "sint (snd (get_work_range n p i)) = split_point (sint n) (sint p) (sint i + 1)"
    using b2 sint_cint_bounds[of n]
    by (simp add: get_work_range_word_of_int[OF assms(1,2)] sint_word_of_int_32)
qed

lemma split_point_mono:
  assumes "0 < p" "0 \<le> n" "0 \<le> i" "i \<le> j"
  shows "split_point n p i \<le> split_point n p j"
  using assms(4,3)
proof (induction j rule: int_ge_induct)
  case base
  show ?case by simp
next
  case (step j)
  have "0 \<le> j" using step by simp
  then have "split_point n p j \<le> split_point n p (j + 1)"
    using sdiv_smod_facts(2)[OF assms(1,2)] by (simp add: split_point_step[OF assms(1)])
  with step show ?case by simp
qed

lemma split_point_antimono_step:
  assumes "0 < p" "n < 0" "0 \<le> i"
  shows "split_point n p (i + 1) \<le> split_point n p i"
  using sdiv_smod_facts(3)[OF assms(1,2)] assms(3)
  by (simp add: split_point_step[OF assms(1,3)])

lemma split_point_cover:
  assumes "0 < p" "0 \<le> n" "0 \<le> k"
  shows "(\<Union>i\<in>{0..<k}. {split_point n p i ..< split_point n p (i + 1)}) = {0 ..< split_point n p k}"
  using assms(3)
proof (induction k rule: int_ge_induct)
  case base
  show ?case using assms by (simp add: split_point_0)
next
  case (step k)
  have le1: "split_point n p 0 \<le> split_point n p k"
    using split_point_mono[OF assms(1,2), of 0 k] step by simp
  have le2: "split_point n p k \<le> split_point n p (k + 1)"
    using split_point_mono[OF assms(1,2), of k "k + 1"] step by simp
  have "{0..<k + 1} = insert k {0..<k}"
    using step by auto
  then have "(\<Union>i\<in>{0..<k + 1}. {split_point n p i ..< split_point n p (i + 1)}) =
     {split_point n p k ..< split_point n p (k + 1)} \<union> {0 ..< split_point n p k}"
    using step by simp
  also have "\<dots> = {0 ..< split_point n p (k + 1)}"
    using le1 le2 assms by (auto simp: split_point_0)
  finally show ?case .
qed

lemma sint_index_image:
  fixes p :: cint
  shows "sint ` {i :: cint. 0 \<le> sint i \<and> sint i < sint p} = {0 ..< sint p}"
proof (rule set_eqI, rule iffI)
  fix k assume "k \<in> sint ` {i :: cint. 0 \<le> sint i \<and> sint i < sint p}"
  then show "k \<in> {0 ..< sint p}" by auto
next
  fix k assume k: "k \<in> {0 ..< sint p}"
  then have "sint (word_of_int k :: cint) = k"
    using sint_cint_bounds[of p] by (intro sint_word_of_int_32) auto
  with k show "k \<in> sint ` {i :: cint. 0 \<le> sint i \<and> sint i < sint p}"
    by (intro image_eqI[where x = "word_of_int k"]) auto
qed

lemma row_set_get_work_range:
  fixes n p i :: cint
  assumes "0 < sint p" "0 \<le> sint i" "sint i < sint p"
  shows "row_set (get_work_range n p i) =
    {split_point (sint n) (sint p) (sint i) ..< split_point (sint n) (sint p) (sint i + 1)}"
  by (simp add: row_set_def get_work_range_sint[OF assms])

lemma int_div_le_self:
  fixes a p :: int
  assumes "0 \<le> a" "0 < p"
  shows "a div p \<le> a"
proof -
  have "a div p \<le> a div 1"
    using assms by (intro zdiv_mono2) auto
  then show ?thesis by simp
qed

lemma sdiv_smod_32:
  fixes n p :: cint
  assumes "0 < sint p"
  shows "- 2147483648 \<le> sint n sdiv sint p \<and> sint n sdiv sint p < 2147483648
      \<and> - 2147483648 \<le> sint n smod sint p \<and> sint n smod sint p < 2147483648"
proof (cases "0 \<le> sint n")
  case True
  have "sint n div sint p \<le> sint n"
    using True assms by (rule int_div_le_self)
  then show ?thesis
    using sdiv_smod_facts(2)[OF assms True] sint_cint_bounds[of n] sint_cint_bounds[of p]
    by (simp add: sdiv_smod_nonneg[OF True assms])
next
  case False
  then have neg: "sint n < 0" by simp
  have "(- sint n) div sint p \<le> - sint n"
    using neg assms by (intro int_div_le_self) auto
  then show ?thesis
    using sdiv_smod_facts(3)[OF assms neg] sint_cint_bounds[of n] sint_cint_bounds[of p]
    by (simp add: sdiv_smod_neg[OF neg assms])
qed

lemma sint_c_div_c_mod:
  fixes n p :: cint
  assumes "0 < sint p"
  shows "sint (c_div n p) = sint n sdiv sint p" "sint (c_mod n p) = sint n smod sint p"
  using sdiv_smod_32[OF assms, of n]
  by (simp_all add: c_div_def c_mod_def sint_word_of_int_32)

lemma split_point_diff_32:
  fixes n p i :: cint
  assumes "0 < sint p" "0 \<le> sint i" "sint i < sint p"
  shows "- 2147483648 \<le> split_point (sint n) (sint p) (sint i + 1) - split_point (sint n) (sint p) (sint i)"
    and "split_point (sint n) (sint p) (sint i + 1) - split_point (sint n) (sint p) (sint i) < 2147483648"
proof -
  let ?s = "split_point (sint n) (sint p)"
  have b1: "min 0 (sint n) \<le> ?s (sint i) \<and> ?s (sint i) \<le> max 0 (sint n)"
    using split_point_bounds[of "sint p" "sint i" "sint n"] assms by simp
  have b2: "min 0 (sint n) \<le> ?s (sint i + 1) \<and> ?s (sint i + 1) \<le> max 0 (sint n)"
    using split_point_bounds[of "sint p" "sint i + 1" "sint n"] assms by simp
  have "- 2147483648 \<le> ?s (sint i + 1) - ?s (sint i) \<and> ?s (sint i + 1) - ?s (sint i) < 2147483648"
  proof (cases "0 \<le> sint n")
    case True
    then show ?thesis using b1 b2 sint_cint_bounds[of n] by simp
  next
    case False
    then have "?s (sint i + 1) \<le> ?s (sint i)"
      using split_point_antimono_step[OF assms(1) _ assms(2), of "sint n"] by simp
    then show ?thesis using False b1 b2 sint_cint_bounds[of n] by simp
  qed
  then show "- 2147483648 \<le> ?s (sint i + 1) - ?s (sint i)"
    and "?s (sint i + 1) - ?s (sint i) < 2147483648" by simp_all
qed

lemma range_size_get_work_range:
  fixes n p i :: cint
  assumes "0 < sint p" "0 \<le> sint i" "sint i < sint p"
  shows "range_size (get_work_range n p i) =
     sint (c_div n p) + (if i <s c_mod n p then 1 else 0)"
proof -
  let ?s = "split_point (sint n) (sint p)"
  have step: "?s (sint i + 1) - ?s (sint i) =
      sint n sdiv sint p + (if sint i < sint n smod sint p then 1 else 0)"
    using split_point_step[OF assms(1,2), of "sint n"] by simp
  have "range_size (get_work_range n p i) = sint (word_of_int (?s (sint i + 1) - ?s (sint i)) :: cint)"
    by (simp add: range_size_def get_work_range_word_of_int[OF assms(1,2)])
  also have "\<dots> = ?s (sint i + 1) - ?s (sint i)"
    using split_point_diff_32[OF assms] by (rule sint_word_of_int_32)
  finally show ?thesis
    unfolding step by (simp add: sint_c_div_c_mod[OF assms(1)] word_sless_alt)
qed

section \<open>Properties of the work partitioner\<close>

text \<open>
  Claim C2. For every row count \<open>n\<close> and every worker count \<open>p > 0\<close> (both C
  \<open>int\<close>s), the ranges that \<open>get_work_range\<close> gives the workers \<open>0, \<dots>, p - 1\<close>
  are pairwise disjoint half-open intervals, and their union is exactly the set of rows
  \<open>[0, n)\<close>. The intermediate products are computed with 32-bit wrap-around, which
  never changes a result.
\<close>

theorem get_work_range_partition:
  fixes n p :: cint
  assumes "0 <s p"
  shows "(\<forall>i j. 0 \<le>s i \<and> i <s j \<and> j <s p \<longrightarrow>
            row_set (get_work_range n p i) \<inter> row_set (get_work_range n p j) = {})
       \<and> (\<Union>i\<in>{i. 0 \<le>s i \<and> i <s p}. row_set (get_work_range n p i)) = {0 ..< sint n}"
proof -
  have p: "0 < sint p"
    using assms by (simp add: word_sless_alt)
  let ?s = "split_point (sint n) (sint p)"
  have idx: "{i :: cint. 0 \<le>s i \<and> i <s p} = {i. 0 \<le> sint i \<and> sint i < sint p}"
    by (simp add: word_sless_alt word_sle_eq)
  have rs: "row_set (get_work_range n p i) = {?s (sint i) ..< ?s (sint i + 1)}"
    if "0 \<le> sint i" "sint i < sint p" for i
    using row_set_get_work_range[OF p that] .
  have union_eq: "(\<Union>i\<in>{i. 0 \<le>s i \<and> i <s p}. row_set (get_work_range n p i)) =
      (\<Union>k\<in>{0 ..< sint p}. {?s k ..< ?s (k + 1)})"
  proof -
    have "(\<Union>i\<in>{i. 0 \<le>s i \<and> i <s p}. row_set (get_work_range n p i)) =
      (\<Union>i\<in>{i :: cint. 0 \<le> sint i \<and> sint i < sint p}. {?s (sint i) ..< ?s (sint i + 1)})"
      unfolding idx using rs by auto
    also have "\<dots> = (\<Union>k\<in>sint ` {i :: cint. 0 \<le> sint i \<and> sint i < sint p}. {?s k ..< ?s (k + 1)})"
      by (simp only: UN_simps image_image)
    finally show ?thesis
      by (simp only: sint_index_image)
  qed
  show ?thesis
  proof (cases "0 \<le> sint n")
    case True
    have disj: "row_set (get_work_range n p i) \<inter> row_set (get_work_range n p j) = {}"
      if "0 \<le>s i" "i <s j" "j <s p" for i j
    proof -
      from that have ij: "0 \<le> sint i" "sint i < sint j" "sint j < sint p"
        by (simp_all add: word_sless_alt word_sle_eq)
      have "?s (sint i + 1) \<le> ?s (sint j)"
        using split_point_mono[OF p True, of "sint i + 1" "sint j"] ij by simp
      then show ?thesis
        using ij by (auto simp: rs)
    qed
    have "(\<Union>k\<in>{0 ..< sint p}. {?s k ..< ?s (k + 1)}) = {0 ..< sint n}"
      using split_point_cover[OF p True, of "sint p"] p by (simp add: split_point_p)
    with disj union_eq show ?thesis by simp
  next
    case False
    then have neg: "sint n < 0" by simp
    have empty: "{?s k ..< ?s (k + 1)} = {}" if "0 \<le> k" for k
      using split_point_antimono_step[OF p neg that] by simp
    have "(\<Union>k\<in>{0 ..< sint p}. {?s k ..< ?s (k + 1)}) = {0 ..< sint n}"
      using empty neg by simp
    moreover have "row_set (get_work_range n p i) \<inter> row_set (get_work_range n p j) = {}"
      if "0 \<le>s i" "i <s j" "j <s p" for i j
    proof -
      from that have ij: "0 \<le> sint i" "sint i < sint p"
        by (simp_all add: word_sless_alt word_sle_eq)
      show ?thesis using empty[OF ij(1)] by (simp add: rs[OF ij])
    qed
    ultimately show ?thesis using union_eq by simp
  qed
qed

theorem get_work_range_partition_witness:
  "0 <s (4 :: cint)
   \<and> row_set (get_work_range 10 4 0) \<inter> row_set (get_work_range 10 4 1) = {}
   \<and> (\<Union>i\<in>{i. 0 \<le>s i \<and> i <s (4 :: cint)}. row_set (get_work_range 10 4 i)) = {0 ..< 10}"
proof -
  have h: "0 <s (4 :: cint)"
    by (simp add: word_sless_alt)
  have ij: "0 \<le>s (0 :: cint) \<and> (0 :: cint) <s 1 \<and> (1 :: cint) <s 4"
    by (simp add: word_sless_alt word_sle_eq)
  show ?thesis
    using get_work_range_partition[OF h, of 10] h ij by simp
qed

text \<open>
  Claim C3. For \<open>p > 0\<close> and workers \<open>i\<close>, \<open>j\<close> in \<open>0, \<dots>, p - 1\<close>: worker \<open>i\<close>
  receives \<open>n / p\<close> rows, and one more when \<open>i < n % p\<close>; hence any two sizes differ
  by at most one row, and a range with index below \<open>n % p\<close> is never smaller than a
  range with index at or above \<open>n % p\<close>.
\<close>

theorem get_work_range_balanced:
  fixes n p i j :: cint
  assumes "0 <s p" "0 \<le>s i" "i <s p" "0 \<le>s j" "j <s p"
  shows "range_size (get_work_range n p i) = sint (c_div n p) + (if i <s c_mod n p then 1 else 0)
       \<and> \<bar>range_size (get_work_range n p i) - range_size (get_work_range n p j)\<bar> \<le> 1
       \<and> (i <s c_mod n p \<and> c_mod n p \<le>s j \<longrightarrow>
            range_size (get_work_range n p j) \<le> range_size (get_work_range n p i))"
proof -
  from assms have h: "0 < sint p" "0 \<le> sint i" "sint i < sint p" "0 \<le> sint j" "sint j < sint p"
    by (simp_all add: word_sless_alt word_sle_eq)
  show ?thesis
    by (simp add: range_size_get_work_range[OF h(1,2,3)] range_size_get_work_range[OF h(1,4,5)])
qed

theorem get_work_range_balanced_witness:
  "0 <s (4 :: cint) \<and> 0 \<le>s (1 :: cint) \<and> (1 :: cint) <s 4 \<and> 0 \<le>s (2 :: cint) \<and> (2 :: cint) <s 4
   \<and> (1 :: cint) <s c_mod 10 4 \<and> c_mod 10 4 \<le>s (2 :: cint)
   \<and> range_size (get_work_range 10 4 1) = 3
   \<and> range_size (get_work_range 10 4 2) = 2
   \<and> range_size (get_work_range 10 4 2) \<le> range_size (get_work_range 10 4 1)"
proof -
  have h: "0 <s (4 :: cint)" "0 \<le>s (1 :: cint)" "(1 :: cint) <s 4" "0 \<le>s (2 :: cint)" "(2 :: cint) <s 4"
    by (simp_all add: word_sless_alt word_sle_eq)
  have m: "(1 :: cint) <s c_mod 10 4" "c_mod 10 4 \<le>s (2 :: cint)"
    by (simp_all add: word_sless_alt word_sle_eq c_mod_def signed_modulo_int_def)
  have d: "sint (c_div 10 4) = 2"
    by (simp add: c_div_def signed_divide_int_def)
  show ?thesis
    using get_work_range_balanced[OF h, of 10] get_work_range_balanced[OF h(1,4,5,2,3), of 10] h m d
    by simp
qed

section \<open>The result verifier\<close>

lemma row_major_next_col:
  fixes E :: "nat \<Rightarrow> nat \<Rightarrow> bool"
  assumes "E i j"
  shows "(\<forall>r c. r < n \<and> c < n \<and> (i < r \<or> (r = i \<and> j + 1 \<le> c)) \<longrightarrow> E r c) \<longleftrightarrow>
         (\<forall>r c. r < n \<and> c < n \<and> (i < r \<or> (r = i \<and> j \<le> c)) \<longrightarrow> E r c)"
proof (intro iffI allI impI)
  fix r c
  assume h: "\<forall>r c. r < n \<and> c < n \<and> (i < r \<or> (r = i \<and> j + 1 \<le> c)) \<longrightarrow> E r c"
    and rc: "r < n \<and> c < n \<and> (i < r \<or> (r = i \<and> j \<le> c))"
  show "E r c"
  proof (cases "r = i \<and> c = j")
    case True
    then show ?thesis using assms by simp
  next
    case False
    then have "i < r \<or> (r = i \<and> j + 1 \<le> c)" using rc by auto
    then show ?thesis using h rc by blast
  qed
next
  fix r c
  assume h: "\<forall>r c. r < n \<and> c < n \<and> (i < r \<or> (r = i \<and> j \<le> c)) \<longrightarrow> E r c"
    and rc: "r < n \<and> c < n \<and> (i < r \<or> (r = i \<and> j + 1 \<le> c))"
  then have "i < r \<or> (r = i \<and> j \<le> c)" by auto
  then show "E r c" using h rc by blast
qed

lemma row_major_next_row:
  fixes E :: "nat \<Rightarrow> nat \<Rightarrow> bool"
  shows "(\<forall>r c. r < n \<and> c < n \<and> (i + 1 < r \<or> (r = i + 1 \<and> 0 \<le> c)) \<longrightarrow> E r c) \<longleftrightarrow>
         (\<forall>r c. r < n \<and> c < n \<and> (i < r \<or> (r = i \<and> n \<le> c)) \<longrightarrow> E r c)"
proof (intro iffI allI impI)
  fix r c
  assume h: "\<forall>r c. r < n \<and> c < n \<and> (i + 1 < r \<or> (r = i + 1 \<and> 0 \<le> c)) \<longrightarrow> E r c"
    and rc: "r < n \<and> c < n \<and> (i < r \<or> (r = i \<and> n \<le> c))"
  then have "i + 1 < r \<or> (r = i + 1 \<and> 0 \<le> c)" by auto
  then show "E r c" using h rc by blast
next
  fix r c
  assume h: "\<forall>r c. r < n \<and> c < n \<and> (i < r \<or> (r = i \<and> n \<le> c)) \<longrightarrow> E r c"
    and rc: "r < n \<and> c < n \<and> (i + 1 < r \<or> (r = i + 1 \<and> 0 \<le> c))"
  then have "i < r \<or> (r = i \<and> n \<le> c)" by auto
  then show "E r c" using h rc by blast
qed

lemma compare_from_zero_iff:
  assumes "j \<le> n"
  shows "compare_from n g i j = 0 \<longleftrightarrow>
     (\<forall>r c. r < n \<and> c < n \<and> (i < r \<or> (r = i \<and> j \<le> c)) \<longrightarrow> C g ! r ! c = C_ref g ! r ! c)"
  using assms
proof (induction n g i j rule: compare_from.induct)
  case (1 n g i j)
  show ?case
  proof (cases "i < n")
    case False
    then show ?thesis by (subst compare_from.simps) auto
  next
    case row: True
    show ?thesis
    proof (cases "j < n")
      case col: True
      show ?thesis
      proof (cases "C g ! i ! j \<noteq> C_ref g ! i ! j")
        case True
        have "compare_from n g i j = 1"
          using row col True by (subst compare_from.simps) simp
        moreover have "\<not> (\<forall>r c. r < n \<and> c < n \<and> (i < r \<or> (r = i \<and> j \<le> c)) \<longrightarrow> C g ! r ! c = C_ref g ! r ! c)"
          using row col True by blast
        ultimately show ?thesis by simp
      next
        case False
        then have eq: "C g ! i ! j = C_ref g ! i ! j" by simp
        have "compare_from n g i j = compare_from n g i (j + 1)"
          using row col False by (subst compare_from.simps) simp
        moreover have "compare_from n g i (j + 1) = 0 \<longleftrightarrow>
           (\<forall>r c. r < n \<and> c < n \<and> (i < r \<or> (r = i \<and> j + 1 \<le> c)) \<longrightarrow> C g ! r ! c = C_ref g ! r ! c)"
          using "1.IH"(1)[OF row col] False col by simp
        ultimately show ?thesis
          using row_major_next_col[of "\<lambda>r c. C g ! r ! c = C_ref g ! r ! c" i j n, OF eq] by simp
      qed
    next
      case col: False
      with "1.prems" have jn: "j = n" by simp
      have "compare_from n g i j = compare_from n g (i + 1) 0"
        using row col by (subst compare_from.simps) simp
      moreover have "compare_from n g (i + 1) 0 = 0 \<longleftrightarrow>
         (\<forall>r c. r < n \<and> c < n \<and> (i + 1 < r \<or> (r = i + 1 \<and> 0 \<le> c)) \<longrightarrow> C g ! r ! c = C_ref g ! r ! c)"
        using "1.IH"(2)[OF row col] by simp
      ultimately show ?thesis
        using row_major_next_row[of n i "\<lambda>r c. C g ! r ! c = C_ref g ! r ! c"] jn by simp
    qed
  qed
qed

lemma compare_from_range: "compare_from n g i j = 0 \<or> compare_from n g i j = 1"
proof (induction n g i j rule: compare_from.induct)
  case (1 n g i j)
  show ?case
    using 1 by (subst (1 2) compare_from.simps) simp
qed

lemma fst_scan_from: "fst (scan_from n g i j cnt) = compare_from n g i j"
proof (induction n g i j cnt rule: scan_from.induct)
  case (1 n g i j cnt)
  show ?case
    using 1 by (subst scan_from.simps, subst compare_from.simps) simp
qed

lemma scan_from_all_agree:
  assumes "j \<le> n"
    and "\<forall>r c. r < n \<and> c < n \<and> (i < r \<or> (r = i \<and> j \<le> c)) \<longrightarrow> C g ! r ! c = C_ref g ! r ! c"
  shows "scan_from n g i j cnt = (0, cnt + ((n - i) * n - j))"
  using assms
proof (induction n g i j cnt rule: scan_from.induct)
  case (1 n g i j cnt)
  show ?case
  proof (cases "i < n")
    case False
    then show ?thesis by (subst scan_from.simps) simp
  next
    case row: True
    show ?thesis
    proof (cases "j < n")
      case col: True
      have eq: "C g ! i ! j = C_ref g ! i ! j"
        using "1.prems"(2) row col by simp
      have "scan_from n g i j cnt = scan_from n g i (j + 1) (cnt + 1)"
        using row col eq by (subst scan_from.simps) simp
      also have "\<dots> = (0, cnt + 1 + ((n - i) * n - (j + 1)))"
      proof -
        have "\<forall>r c. r < n \<and> c < n \<and> (i < r \<or> (r = i \<and> j + 1 \<le> c)) \<longrightarrow> C g ! r ! c = C_ref g ! r ! c"
          using "1.prems"(2) by auto
        then show ?thesis
          using "1.IH"(1)[OF row col] eq col by simp
      qed
      also have "cnt + 1 + ((n - i) * n - (j + 1)) = cnt + ((n - i) * n - j)"
      proof -
        have "n \<le> (n - i) * n"
          using row by simp
        with col have "j < (n - i) * n"
          by (rule less_le_trans)
        then show ?thesis by simp
      qed
      finally show ?thesis .
    next
      case col: False
      with "1.prems" have jn: "j = n" by simp
      have "scan_from n g i j cnt = scan_from n g (i + 1) 0 cnt"
        using row col by (subst scan_from.simps) simp
      also have "\<dots> = (0, cnt + ((n - (i + 1)) * n - 0))"
      proof -
        have "\<forall>r c. r < n \<and> c < n \<and> (i + 1 < r \<or> (r = i + 1 \<and> 0 \<le> c)) \<longrightarrow> C g ! r ! c = C_ref g ! r ! c"
          using "1.prems"(2) by auto
        then show ?thesis
          using "1.IH"(2)[OF row col] by simp
      qed
      also have "(n - (i + 1)) * n - 0 = (n - i) * n - j"
        using jn by (simp add: diff_mult_distrib)
      finally show ?thesis .
    qed
  qed
qed

lemma scan_from_first_mismatch:
  assumes "j \<le> n" "i0 < n" "j0 < n"
    and "i < i0 \<or> (i = i0 \<and> j \<le> j0)"
    and "C g ! i0 ! j0 \<noteq> C_ref g ! i0 ! j0"
    and "\<forall>r c. r < n \<and> c < n \<and> (i < r \<or> (r = i \<and> j \<le> c)) \<and> (r < i0 \<or> (r = i0 \<and> c < j0))
           \<longrightarrow> C g ! r ! c = C_ref g ! r ! c"
  shows "scan_from n g i j cnt = (1, cnt + (i0 * n + j0 + 1) - (i * n + j))"
  using assms
proof (induction n g i j cnt rule: scan_from.induct)
  case (1 n g i j cnt)
  have row: "i < n" using "1.prems" by auto
  show ?case
  proof (cases "j < n")
    case col: True
    show ?thesis
    proof (cases "i = i0 \<and> j = j0")
      case True
      then show ?thesis
        using row col "1.prems"(5) by (subst scan_from.simps) simp
    next
      case False
      then have before: "i < i0 \<or> (i = i0 \<and> j < j0)"
        using "1.prems"(4) by auto
      then have eq: "C g ! i ! j = C_ref g ! i ! j"
        using "1.prems"(6) row col by simp
      have next_ok: "i < i0 \<or> (i = i0 \<and> j + 1 \<le> j0)"
        using before by auto
      have le: "i * n + j + 1 \<le> i0 * n + j0 + 1"
      proof (cases "i < i0")
        case True
        then have "(i + 1) * n \<le> i0 * n" by (intro mult_le_mono1) simp
        then show ?thesis using col by simp
      next
        case False
        then show ?thesis using before by simp
      qed
      have "scan_from n g i j cnt = scan_from n g i (j + 1) (cnt + 1)"
        using row col eq by (subst scan_from.simps) simp
      also have "\<dots> = (1, cnt + 1 + (i0 * n + j0 + 1) - (i * n + (j + 1)))"
      proof -
        have "\<forall>r c. r < n \<and> c < n \<and> (i < r \<or> (r = i \<and> j + 1 \<le> c)) \<and> (r < i0 \<or> (r = i0 \<and> c < j0))
           \<longrightarrow> C g ! r ! c = C_ref g ! r ! c"
          using "1.prems"(6) by auto
        then show ?thesis
          using "1.IH"(1)[OF row col _ _ "1.prems"(2,3) next_ok "1.prems"(5)] eq col
          by simp
      qed
      also have "cnt + 1 + (i0 * n + j0 + 1) - (i * n + (j + 1)) = cnt + (i0 * n + j0 + 1) - (i * n + j)"
        using le by simp
      finally show ?thesis .
    qed
  next
    case col: False
    with "1.prems" have jn: "j = n" by simp
    then have lt: "i < i0" using "1.prems"(3,4) by auto
    then have next_ok: "i + 1 < i0 \<or> (i + 1 = i0 \<and> 0 \<le> j0)" by auto
    have "scan_from n g i j cnt = scan_from n g (i + 1) 0 cnt"
      using row col by (subst scan_from.simps) simp
    also have "\<dots> = (1, cnt + (i0 * n + j0 + 1) - ((i + 1) * n + 0))"
    proof -
      have "\<forall>r c. r < n \<and> c < n \<and> (i + 1 < r \<or> (r = i + 1 \<and> 0 \<le> c)) \<and> (r < i0 \<or> (r = i0 \<and> c < j0))
           \<longrightarrow> C g ! r ! c = C_ref g ! r ! c"
        using "1.prems"(6) by auto
      then show ?thesis
        using "1.IH"(2)[OF row col _ "1.prems"(2,3) next_ok "1.prems"(5)] by simp
    qed
    also have "(i + 1) * n + 0 = i * n + j"
      using jn by simp
    finally show ?thesis .
  qed
qed

text \<open>
  Claim C5. \<open>compare_results\<close> returns 0 (success) exactly when \<open>C\<close> and \<open>C_ref\<close> agree
  at every one of the \<open>n * n\<close> positions, and 1 (failure) otherwise. The scan goes
  through the positions in row-major order: when all agree it has compared all
  \<open>n * n\<close> of them, and when \<open>(i0, j0)\<close> is the first position that differs it returns
  1 there, after \<open>i0 * n + j0 + 1\<close> comparisons.
\<close>

theorem compare_results_correct:
  "(compare_results n g = 0 \<longleftrightarrow> (\<forall>i j. i < n \<and> j < n \<longrightarrow> C g ! i ! j = C_ref g ! i ! j))
   \<and> (compare_results n g = 0 \<or> compare_results n g = 1)
   \<and> fst (scan_from n g 0 0 0) = compare_results n g
   \<and> ((\<forall>i j. i < n \<and> j < n \<longrightarrow> C g ! i ! j = C_ref g ! i ! j) \<longrightarrow>
        snd (scan_from n g 0 0 0) = n * n)
   \<and> (\<forall>i0 j0. i0 < n \<and> j0 < n \<and> C g ! i0 ! j0 \<noteq> C_ref g ! i0 ! j0 \<and>
         (\<forall>r c. r < n \<and> c < n \<and> (r < i0 \<or> (r = i0 \<and> c < j0)) \<longrightarrow> C g ! r ! c = C_ref g ! r ! c)
         \<longrightarrow> scan_from n g 0 0 0 = (1, i0 * n + j0 + 1))"
proof (intro conjI allI impI)
  show "compare_results n g = 0 \<longleftrightarrow> (\<forall>i j. i < n \<and> j < n \<longrightarrow> C g ! i ! j = C_ref g ! i ! j)"
  proof -
    have "compare_results n g = 0 \<longleftrightarrow>
      (\<forall>r c. r < n \<and> c < n \<and> (0 < r \<or> (r = 0 \<and> 0 \<le> c)) \<longrightarrow> C g ! r ! c = C_ref g ! r ! c)"
      unfolding compare_results_def by (rule compare_from_zero_iff) simp
    also have "\<dots> \<longleftrightarrow> (\<forall>i j. i < n \<and> j < n \<longrightarrow> C g ! i ! j = C_ref g ! i ! j)"
      by auto
    finally show ?thesis .
  qed
  show "compare_results n g = 0 \<or> compare_results n g = 1"
    unfolding compare_results_def by (rule compare_from_range)
  show "fst (scan_from n g 0 0 0) = compare_results n g"
    unfolding compare_results_def by (rule fst_scan_from)
next
  assume "\<forall>i j. i < n \<and> j < n \<longrightarrow> C g ! i ! j = C_ref g ! i ! j"
  then have "scan_from n g 0 0 0 = (0, 0 + ((n - 0) * n - 0))"
    by (intro scan_from_all_agree) auto
  then show "snd (scan_from n g 0 0 0) = n * n" by simp
next
  fix i0 j0
  assume h: "i0 < n \<and> j0 < n \<and> C g ! i0 ! j0 \<noteq> C_ref g ! i0 ! j0 \<and>
         (\<forall>r c. r < n \<and> c < n \<and> (r < i0 \<or> (r = i0 \<and> c < j0)) \<longrightarrow> C g ! r ! c = C_ref g ! r ! c)"
  then have "scan_from n g 0 0 0 = (1, 0 + (i0 * n + j0 + 1) - (0 * n + 0))"
    by (intro scan_from_first_mismatch) auto
  then show "scan_from n g 0 0 0 = (1, i0 * n + j0 + 1)" by simp
qed

theorem compare_results_correct_witness:
  "compare_results 2 \<lparr>A = [], B = [], C = [[1, 2], [3, 4]], C_ref = [[1, 2], [5, 4]]\<rparr> = 1
   \<and> scan_from 2 \<lparr>A = [], B = [], C = [[1, 2], [3, 4]], C_ref = [[1, 2], [5, 4]]\<rparr> 0 0 0 = (1, 3)
   \<and> compare_results 2 \<lparr>A = [], B = [], C = [[1, 2], [3, 4]], C_ref = [[1, 2], [3, 4]]\<rparr> = 0
   \<and> snd (scan_from 2 \<lparr>A = [], B = [], C = [[1, 2], [3, 4]], C_ref = [[1, 2], [3, 4]]\<rparr> 0 0 0) = 4"
proof -
  let ?bad = "\<lparr>A = [], B = [], C = [[1, 2], [3, 4 :: cint]], C_ref = [[1, 2], [5, 4 :: cint]]\<rparr>"
  let ?good = "\<lparr>A = [], B = [], C = [[1, 2], [3, 4 :: cint]], C_ref = [[1, 2], [3, 4 :: cint]]\<rparr>"
  have first: "(1 :: nat) < 2 \<and> (0 :: nat) < 2 \<and> C ?bad ! 1 ! 0 \<noteq> C_ref ?bad ! 1 ! 0 \<and>
      (\<forall>r c. r < 2 \<and> c < 2 \<and> (r < 1 \<or> (r = 1 \<and> c < 0)) \<longrightarrow> C ?bad ! r ! c = C_ref ?bad ! r ! c)"
    by (auto simp: less_2_cases_iff)
  have same: "\<forall>i j. i < 2 \<and> j < 2 \<longrightarrow> C ?good ! i ! j = C_ref ?good ! i ! j"
    by simp
  have differ: "\<not> (\<forall>i j. i < 2 \<and> j < 2 \<longrightarrow> C ?bad ! i ! j = C_ref ?bad ! i ! j)"
    using first by blast
  from compare_results_correct[of 2 ?bad] first differ
  have "compare_results 2 ?bad = 1" "scan_from 2 ?bad 0 0 0 = (1, 1 * 2 + 0 + 1)"
    by blast+
  moreover from compare_results_correct[of 2 ?good] same
  have "compare_results 2 ?good = 0" "snd (scan_from 2 ?good 0 0 0) = 2 * 2"
    by blast+
  ultimately show ?thesis by simp
qed

section \<open>Arrays as bytes\<close>

lemma bytes_int_int_bytes: "bytes_int (int_bytes w) = w"
proof (rule bit_word_eqI)
  fix k
  assume "k < LENGTH(32)"
  then consider "k < 8" | "8 \<le> k" "k < 16" | "16 \<le> k" "k < 24" | "24 \<le> k" "k < 32"
    by fastforce
  then show "bit (bytes_int (int_bytes w)) k = bit w k"
    by cases (auto simp: bytes_int_def int_bytes_def bit_simps)
qed

lemma length_int_bytes: "length (int_bytes w) = 4"
  by (simp add: int_bytes_def)

lemma length_ints_bytes: "length (ints_bytes xs) = 4 * length xs"
  by (induction xs) (simp_all add: ints_bytes_def length_int_bytes)

lemma drop_ints_bytes: "drop (4 * k) (ints_bytes xs) = ints_bytes (drop k xs)"
proof (induction xs arbitrary: k)
  case Nil
  show ?case by (simp add: ints_bytes_def)
next
  case (Cons x xs)
  show ?case
  proof (cases k)
    case 0
    then show ?thesis by simp
  next
    case (Suc k')
    have "drop (4 * k) (ints_bytes (x # xs)) = drop (4 * k') (ints_bytes xs)"
      using Suc by (simp add: ints_bytes_def length_int_bytes)
    then show ?thesis using Cons.IH[of k'] Suc by simp
  qed
qed

lemma take_ints_bytes: "take (4 * k) (ints_bytes xs) = ints_bytes (take k xs)"
proof (induction xs arbitrary: k)
  case Nil
  show ?case by (simp add: ints_bytes_def)
next
  case (Cons x xs)
  show ?case
  proof (cases k)
    case 0
    then show ?thesis by (simp add: ints_bytes_def)
  next
    case (Suc k')
    have "take (4 * k) (ints_bytes (x # xs)) = int_bytes x @ take (4 * k') (ints_bytes xs)"
      using Suc by (simp add: ints_bytes_def length_int_bytes)
    then show ?thesis using Cons.IH[of k'] Suc by (simp add: ints_bytes_def)
  qed
qed

lemma load_int_ints_bytes:
  assumes "idx < length xs"
  shows "load_int (ints_bytes xs @ rest) idx = xs ! idx"
proof -
  obtain x ys where d: "drop idx xs = x # ys" and x: "x = xs ! idx"
    using assms by (metis Cons_nth_drop_Suc)
  have "4 * idx \<le> length (ints_bytes xs)"
    using assms by (simp add: length_ints_bytes)
  then have "drop (4 * idx) (ints_bytes xs @ rest) = ints_bytes (drop idx xs) @ rest"
    by (simp add: drop_ints_bytes)
  also have "\<dots> = int_bytes x @ ints_bytes ys @ rest"
    by (simp add: d ints_bytes_def)
  finally have "take 4 (drop (4 * idx) (ints_bytes xs @ rest)) = int_bytes x"
    by (simp add: length_int_bytes)
  then show ?thesis
    by (simp add: load_int_def bytes_int_int_bytes x)
qed

section \<open>What the loops over buffers and matrices compute\<close>

lemma fold_fill_row:
  assumes "idx + m \<le> length buf"
  shows "fold (\<lambda>c (buf, idx). (buf[idx := f c], idx + 1)) [0..<m] (buf, idx) =
      (take idx buf @ map f [0..<m] @ drop (idx + m) buf, idx + m)"
  using assms
proof (induction m)
  case 0
  show ?case by simp
next
  case (Suc m)
  let ?mid = "take idx buf @ map f [0..<m] @ drop (idx + m) buf"
  have len: "length (take idx buf @ map f [0..<m]) = idx + m"
    using Suc.prems by simp
  have "drop (idx + m) buf = buf ! (idx + m) # drop (Suc (idx + m)) buf"
    using Suc.prems by (intro Cons_nth_drop_Suc[symmetric]) simp
  then have "?mid[idx + m := f m] =
      (take idx buf @ map f [0..<m]) @ f m # drop (Suc (idx + m)) buf"
    using len by (metis append.assoc list_update_length)
  then have "?mid[idx + m := f m] = take idx buf @ map f [0..<Suc m] @ drop (idx + Suc m) buf"
    by simp
  then show ?case
    using Suc by simp
qed

lemma length_concat_rows:
  "length (concat (map (\<lambda>r. map (f r) [0..<n]) rs)) = length rs * n"
  by (induction rs) simp_all

lemma fold_fill_rows_aux:
  assumes "idx + d * n \<le> length buf"
  shows "fold (\<lambda>r. fold (\<lambda>c (buf, idx). (buf[idx := f r c], idx + 1)) [0..<n]) [s..<s + d] (buf, idx) =
      (take idx buf @ concat (map (\<lambda>r. map (f r) [0..<n]) [s..<s + d]) @ drop (idx + d * n) buf,
       idx + d * n)"
  using assms
proof (induction d)
  case 0
  show ?case by simp
next
  case (Suc d)
  let ?X = "concat (map (\<lambda>r. map (f r) [0..<n]) [s..<s + d])"
  let ?mid = "take idx buf @ ?X @ drop (idx + d * n) buf"
  have lenX: "length ?X = d * n"
    by (simp add: length_concat_rows)
  have le: "idx + d * n \<le> length buf" "idx + d * n + n \<le> length buf"
    using Suc.prems by simp_all
  have lenmid: "length ?mid = length buf"
    using le lenX by simp
  have IH: "fold (\<lambda>r. fold (\<lambda>c (buf, idx). (buf[idx := f r c], idx + 1)) [0..<n]) [s..<s + d] (buf, idx) =
      (?mid, idx + d * n)"
    using Suc.IH le by simp
  have row: "fold (\<lambda>c (buf, idx). (buf[idx := f (s + d) c], idx + 1)) [0..<n] (?mid, idx + d * n) =
      (take (idx + d * n) ?mid @ map (f (s + d)) [0..<n] @ drop (idx + d * n + n) ?mid, idx + d * n + n)"
    using le lenmid by (intro fold_fill_row) simp
  have t: "take (idx + d * n) ?mid = take idx buf @ ?X"
    using le lenX by simp
  have dr: "drop (idx + d * n + n) ?mid = drop (idx + Suc d * n) buf"
    using le lenX by (simp add: add.commute add.left_commute)
  have "fold (\<lambda>r. fold (\<lambda>c (buf, idx). (buf[idx := f r c], idx + 1)) [0..<n]) [s..<s + Suc d] (buf, idx) =
      fold (\<lambda>c (buf, idx). (buf[idx := f (s + d) c], idx + 1)) [0..<n] (?mid, idx + d * n)"
    using IH by simp
  also have "\<dots> = (take idx buf @ ?X @ map (f (s + d)) [0..<n] @ drop (idx + Suc d * n) buf, idx + Suc d * n)"
    unfolding row t dr by (simp add: add.commute add.left_commute)
  finally show ?case by simp
qed

lemma acc_upto_sum: "acc_upto a b r c m = (\<Sum>k = 0..<m. a ! r ! k * b ! k ! c)"
  by (induction m) (simp_all add: acc_upto_def add.commute)

lemma child_compute_eq:
  assumes "start \<le> end" "length outbuf0 = (end - start) * n"
  shows "child_compute n g start end outbuf0 =
     concat (map (\<lambda>r. map (\<lambda>c. acc_upto (A g) (B g) r c n) [0..<n]) [start..<end])"
proof -
  have e: "end = start + (end - start)" using assms(1) by simp
  have "fold (\<lambda>r. fold (\<lambda>c (buf, idx). (buf[idx := acc_upto (A g) (B g) r c n], idx + 1)) [0..<n])
          [start..<start + (end - start)] (outbuf0, 0) =
      (take 0 outbuf0 @ concat (map (\<lambda>r. map (\<lambda>c. acc_upto (A g) (B g) r c n) [0..<n]) [start..<start + (end - start)])
         @ drop (0 + (end - start) * n) outbuf0, 0 + (end - start) * n)"
    using assms(2) by (intro fold_fill_rows_aux) simp
  then show ?thesis
    using assms by (simp add: child_compute_def acc_upto_def Let_def)
qed

lemma fold_mat_set_row:
  assumes "r < length m" "k \<le> length (m ! r)"
  shows "fold (\<lambda>c m. mat_set m r c (f c)) [0..<k] m = m[r := map f [0..<k] @ drop k (m ! r)]"
  using assms(2)
proof (induction k)
  case 0
  show ?case by simp
next
  case (Suc k)
  have "drop k (m ! r) = (m ! r) ! k # drop (Suc k) (m ! r)"
    using Suc.prems by (intro Cons_nth_drop_Suc[symmetric]) simp
  then have "(map f [0..<k] @ drop k (m ! r))[k := f k] = map f [0..<k] @ f k # drop (Suc k) (m ! r)"
    by (metis length_map length_upt diff_zero list_update_length)
  then show ?case
    using Suc assms(1) by (simp add: mat_set_def)
qed

lemma fold_mat_set_rows_aux:
  assumes "s + d \<le> length m" "\<forall>r. s \<le> r \<and> r < s + d \<longrightarrow> length (m ! r) = n"
  shows "fold (\<lambda>r. fold (\<lambda>c m. mat_set m r c (f r c)) [0..<n]) [s..<s + d] m =
      take s m @ map (\<lambda>r. map (f r) [0..<n]) [s..<s + d] @ drop (s + d) m"
  using assms
proof (induction d)
  case 0
  show ?case by simp
next
  case (Suc d)
  let ?mid = "take s m @ map (\<lambda>r. map (f r) [0..<n]) [s..<s + d] @ drop (s + d) m"
  have le: "s + d < length m" using Suc.prems by simp
  have IH: "fold (\<lambda>r. fold (\<lambda>c m. mat_set m r c (f r c)) [0..<n]) [s..<s + d] m = ?mid"
    using Suc by simp
  have lenpre: "length (take s m @ map (\<lambda>r. map (f r) [0..<n]) [s..<s + d]) = s + d"
    using le by simp
  have dr: "drop (s + d) m = m ! (s + d) # drop (Suc (s + d)) m"
    using le by (intro Cons_nth_drop_Suc[symmetric])
  have nth_mid: "?mid ! (s + d) = m ! (s + d)"
    using lenpre dr by (metis append.assoc nth_append_length)
  have len_mid: "s + d < length ?mid"
    using le by simp
  have rowlen: "length (m ! (s + d)) = n"
    using Suc.prems by simp
  have "fold (\<lambda>c m. mat_set m (s + d) c (f (s + d) c)) [0..<n] ?mid =
      ?mid[s + d := map (f (s + d)) [0..<n] @ drop n (?mid ! (s + d))]"
    using len_mid nth_mid rowlen by (intro fold_mat_set_row) simp_all
  also have "\<dots> = ?mid[s + d := map (f (s + d)) [0..<n]]"
    using nth_mid rowlen by simp
  also have "\<dots> = (take s m @ map (\<lambda>r. map (f r) [0..<n]) [s..<s + d]) @
      map (f (s + d)) [0..<n] # drop (Suc (s + d)) m"
    using lenpre dr by (metis append.assoc list_update_length)
  finally have "fold (\<lambda>c m. mat_set m (s + d) c (f (s + d) c)) [0..<n] ?mid =
      take s m @ map (\<lambda>r. map (f r) [0..<n]) [s..<s + Suc d] @ drop (s + Suc d) m"
    by simp
  then show ?case
    using IH by simp
qed

lemma reference_inner:
  "fold (\<lambda>j g. g\<lparr>C_ref := mat_set (C_ref g) i j (F (A g) (B g) i j)\<rparr>) js g =
     g\<lparr>C_ref := fold (\<lambda>j m. mat_set m i j (F (A g) (B g) i j)) js (C_ref g)\<rparr>"
  by (induction js arbitrary: g) simp_all

lemma reference_outer:
  "fold (\<lambda>i. fold (\<lambda>j g. g\<lparr>C_ref := mat_set (C_ref g) i j (F (A g) (B g) i j)\<rparr>) js) rs g =
     g\<lparr>C_ref := fold (\<lambda>i. fold (\<lambda>j m. mat_set m i j (F (A g) (B g) i j)) js) rs (C_ref g)\<rparr>"
  by (induction rs arbitrary: g) (simp_all add: reference_inner)

lemma square_rows: "square n m \<Longrightarrow> r < n \<Longrightarrow> length (m ! r) = n"
  by (simp add: square_def list_all_length)

lemma square_length: "square n m \<Longrightarrow> length m = n"
  by (simp add: square_def)

lemma multiply_reference_eq:
  assumes "square n (C_ref g)"
  shows "multiply_reference n g =
     g\<lparr>C_ref := map (\<lambda>i. map (\<lambda>j. acc_upto (A g) (B g) i j n) [0..<n]) [0..<n]\<rparr>"
proof -
  have "multiply_reference n g =
     g\<lparr>C_ref := fold (\<lambda>i. fold (\<lambda>j m. mat_set m i j (acc_upto (A g) (B g) i j n)) [0..<n]) [0..<0 + n] (C_ref g)\<rparr>"
    unfolding multiply_reference_def Let_def acc_upto_def
    using reference_outer[of "\<lambda>a b i j. fold (\<lambda>k sum. sum + a ! i ! k * b ! k ! j) [0..<n] 0" "[0..<n]" "[0..<n]" g]
    by simp
  also have "fold (\<lambda>i. fold (\<lambda>j m. mat_set m i j (acc_upto (A g) (B g) i j n)) [0..<n]) [0..<0 + n] (C_ref g) =
     take 0 (C_ref g) @ map (\<lambda>i. map (\<lambda>j. acc_upto (A g) (B g) i j n) [0..<n]) [0..<0 + n] @ drop (0 + n) (C_ref g)"
    using assms by (intro fold_mat_set_rows_aux) (simp_all add: square_length square_rows)
  finally show ?thesis
    using assms by (simp add: square_length)
qed

lemma copy_inner:
  "fold (\<lambda>c (g, idx). (g\<lparr>C := mat_set (C g) r c (v idx)\<rparr>, idx + 1)) [0..<k] (g, idx) =
     (g\<lparr>C := fold (\<lambda>c m. mat_set m r c (v (idx + c))) [0..<k] (C g)\<rparr>, idx + k)"
  by (induction k) simp_all

lemma copy_outer:
  "fold (\<lambda>r. fold (\<lambda>c (g, idx). (g\<lparr>C := mat_set (C g) r c (v idx)\<rparr>, idx + 1)) [0..<n]) [s..<s + d] (g, idx) =
     (g\<lparr>C := fold (\<lambda>r. fold (\<lambda>c m. mat_set m r c (v (idx + (r - s) * n + c))) [0..<n]) [s..<s + d] (C g)\<rparr>,
      idx + d * n)"
proof (induction d)
  case 0
  show ?case by simp
next
  case (Suc d)
  let ?F = "\<lambda>r. fold (\<lambda>c (g, idx). (g\<lparr>C := mat_set (C g) r c (v idx)\<rparr>, idx + 1)) [0..<n]"
  let ?M = "fold (\<lambda>r. fold (\<lambda>c m. mat_set m r c (v (idx + (r - s) * n + c))) [0..<n]) [s..<s + d] (C g)"
  have up: "[s..<s + Suc d] = [s..<s + d] @ [s + d]"
    by simp
  have "fold ?F [s..<s + Suc d] (g, idx) = ?F (s + d) (fold ?F [s..<s + d] (g, idx))"
    unfolding up by simp
  also have "\<dots> = ?F (s + d) (g\<lparr>C := ?M\<rparr>, idx + d * n)"
    by (simp only: Suc.IH)
  also have "\<dots> = (g\<lparr>C := ?M\<rparr>\<lparr>C := fold (\<lambda>c m. mat_set m (s + d) c (v (idx + d * n + c))) [0..<n]
        (C (g\<lparr>C := ?M\<rparr>))\<rparr>, idx + d * n + n)"
    by (rule copy_inner)
  also have "\<dots> = (g\<lparr>C := fold (\<lambda>r. fold (\<lambda>c m. mat_set m r c (v (idx + (r - s) * n + c))) [0..<n])
        [s..<s + Suc d] (C g)\<rparr>, idx + Suc d * n)"
    unfolding up by (simp add: add.commute)
  finally show ?case .
qed

lemma copy_block_eq:
  assumes "start \<le> end" "end \<le> n" "square n (C g)"
  shows "copy_block n start end inbuf g =
     g\<lparr>C := take start (C g) @
        map (\<lambda>r. map (\<lambda>c. load_int inbuf ((r - start) * n + c)) [0..<n]) [start..<end] @
        drop end (C g)\<rparr>"
proof -
  define d where "d = end - start"
  have e: "end = start + d" using assms(1) by (simp add: d_def)
  have "copy_block n start end inbuf g =
     g\<lparr>C := fold (\<lambda>r. fold (\<lambda>c m. mat_set m r c (load_int inbuf (0 + (r - start) * n + c))) [0..<n])
              [start..<start + d] (C g)\<rparr>"
    unfolding copy_block_def e by (simp only: copy_outer fst_conv)
  also have "fold (\<lambda>r. fold (\<lambda>c m. mat_set m r c (load_int inbuf (0 + (r - start) * n + c))) [0..<n])
              [start..<start + d] (C g) =
      take start (C g) @ map (\<lambda>r. map (\<lambda>c. load_int inbuf (0 + (r - start) * n + c)) [0..<n]) [start..<start + d]
        @ drop (start + d) (C g)"
    using assms e by (intro fold_mat_set_rows_aux) (simp_all add: square_length square_rows)
  finally show ?thesis
    by (simp add: e)
qed

section \<open>The write loop and the read loop\<close>

lemma write_loop_result:
  assumes "written \<le> bytes" "length buf = bytes"
  shows "case write_loop wr i buf bytes written k chan out of
     (written', k', chan', out') \<Rightarrow>
        written \<le> written' \<and> written' \<le> bytes
        \<and> chan' = chan @ take (written' - written) (drop written buf)
        \<and> out' = out @ (if written' < bytes then [Child_write_failed i] else [])
        \<and> ((\<forall>j. 0 < wr j) \<longrightarrow> written' = bytes)
        \<and> (bytes = written \<longrightarrow> k' = k)"
  using assms
proof (induction wr i buf bytes written k chan out rule: write_loop.induct)
  case (1 wr i buf bytes written k chan out)
  show ?case
  proof (cases "written < bytes")
    case False
    then show ?thesis
      using "1.prems" by (subst write_loop.simps) simp
  next
    case more: True
    show ?thesis
    proof (cases "wr k \<le> 0")
      case True
      then show ?thesis
        using more by (subst write_loop.simps) (auto simp: sys_write_def not_less)
    next
      case False
      define m where "m = min (nat (wr k)) (bytes - written)"
      have m: "0 < m" "written + m \<le> bytes"
        using False more by (simp_all add: m_def)
      have sw: "sys_write (wr k) chan (take (bytes - written) (drop written buf)) =
          (int m, chan @ take m (drop written buf))"
        using False "1.prems" by (simp add: sys_write_def m_def Let_def min.assoc)
      have unfold: "write_loop wr i buf bytes written k chan out =
          write_loop wr i buf bytes (written + m) (k + 1) (chan @ take m (drop written buf)) out"
        using more m by (subst write_loop.simps) (simp add: sw)
      have IH: "case write_loop wr i buf bytes (written + m) (k + 1) (chan @ take m (drop written buf)) out of
         (written', k', chan', out') \<Rightarrow>
            written + m \<le> written' \<and> written' \<le> bytes
            \<and> chan' = (chan @ take m (drop written buf)) @ take (written' - (written + m)) (drop (written + m) buf)
            \<and> out' = out @ (if written' < bytes then [Child_write_failed i] else [])
            \<and> ((\<forall>j. 0 < wr j) \<longrightarrow> written' = bytes)
            \<and> (bytes = written + m \<longrightarrow> k' = k + 1)"
        using "1.IH"[OF more sw[symmetric]] m "1.prems" by simp
      have join: "take m (drop written buf) @ take (w' - (written + m)) (drop (written + m) buf) =
          take (w' - written) (drop written buf)" if "written + m \<le> w'" for w'
      proof -
        have "w' - written = m + (w' - (written + m))" using that by simp
        then show ?thesis
          by (simp only: take_add drop_drop add.commute)
      qed
      show ?thesis
        unfolding unfold using IH more by (auto simp: join split: prod.splits)
    qed
  qed
qed

lemma store_Nil: "store buf off [] = buf"
  by (simp add: store_def)

lemma length_store: "off + length xs \<le> length buf \<Longrightarrow> length (store buf off xs) = length buf"
  by (simp add: store_def)

lemma store_store:
  assumes "off + length xs \<le> length buf"
  shows "store (store buf off xs) (off + length xs) ys = store buf off (xs @ ys)"
proof -
  have "length (take off buf) = off" using assms by simp
  then show ?thesis
    using assms by (simp add: store_def ac_simps)
qed

lemma store_whole: "length xs = length buf \<Longrightarrow> store buf 0 xs = xs"
  by (simp add: store_def)

lemma read_loop_result:
  assumes "offset \<le> bytes" "length inbuf = bytes"
  shows "case read_loop rd i bytes inbuf offset k chan out of
     (inbuf', offset', k', chan', out') \<Rightarrow>
        offset \<le> offset' \<and> offset' \<le> bytes \<and> offset' - offset \<le> length chan
        \<and> inbuf' = store inbuf offset (take (offset' - offset) chan)
        \<and> chan' = drop (offset' - offset) chan
        \<and> out' = out @ (if offset' < bytes then [Parent_read_failed i] else [])
        \<and> ((\<forall>j. 0 < rd j) \<and> bytes - offset \<le> length chan \<longrightarrow> offset' = bytes)
        \<and> (bytes = offset \<longrightarrow> k' = k)"
  using assms
proof (induction rd i bytes inbuf offset k chan out rule: read_loop.induct)
  case (1 rd i bytes inbuf offset k chan out)
  show ?case
  proof (cases "offset < bytes")
    case False
    then show ?thesis
      using "1.prems" by (subst read_loop.simps) (simp add: store_Nil)
  next
    case more: True
    define m where "m = min (nat (rd k)) (min (bytes - offset) (length chan))"
    show ?thesis
    proof (cases "rd k \<le> 0 \<or> chan = []")
      case True
      then have "fst (sys_read (rd k) chan (bytes - offset)) \<le> 0"
        "snd (snd (sys_read (rd k) chan (bytes - offset))) = chan"
        by (auto simp: sys_read_def)
      moreover have "\<not> ((\<forall>j. 0 < rd j) \<and> bytes - offset \<le> length chan)"
      proof
        assume h: "(\<forall>j. 0 < rd j) \<and> bytes - offset \<le> length chan"
        then have "0 < rd k" by blast
        with True h more show False by auto
      qed
      ultimately show ?thesis
        using more by (subst read_loop.simps) (auto simp: store_Nil split: prod.splits)
    next
      case False
      then have m: "0 < m" "offset + m \<le> bytes" "m \<le> length chan"
        using more by (simp_all add: m_def)
      have sr: "sys_read (rd k) chan (bytes - offset) = (int m, take m chan, drop m chan)"
        using False by (simp add: sys_read_def m_def Let_def)
      have unfold: "read_loop rd i bytes inbuf offset k chan out =
          read_loop rd i bytes (store inbuf offset (take m chan)) (offset + m) (k + 1) (drop m chan) out"
        using more m by (subst read_loop.simps) (simp add: sr)
      have len: "length (take m chan) = m"
        using m by simp
      have len': "length (store inbuf offset (take m chan)) = bytes"
        using m "1.prems" by (simp add: length_store)
      have IH: "case read_loop rd i bytes (store inbuf offset (take m chan)) (offset + m) (k + 1) (drop m chan) out of
         (inbuf', offset', k', chan', out') \<Rightarrow>
            offset + m \<le> offset' \<and> offset' \<le> bytes \<and> offset' - (offset + m) \<le> length (drop m chan)
            \<and> inbuf' = store (store inbuf offset (take m chan)) (offset + m) (take (offset' - (offset + m)) (drop m chan))
            \<and> chan' = drop (offset' - (offset + m)) (drop m chan)
            \<and> out' = out @ (if offset' < bytes then [Parent_read_failed i] else [])
            \<and> ((\<forall>j. 0 < rd j) \<and> bytes - (offset + m) \<le> length (drop m chan) \<longrightarrow> offset' = bytes)
            \<and> (bytes = offset + m \<longrightarrow> k' = k + 1)"
        using "1.IH"[OF more sr[symmetric] refl] m len' by simp
      have join_store: "store (store inbuf offset (take m chan)) (offset + m) (take (o' - (offset + m)) (drop m chan)) =
          store inbuf offset (take (o' - offset) chan)" if "offset + m \<le> o'" for o'
      proof -
        have "o' - offset = m + (o' - (offset + m))" using that by simp
        then have "take (o' - offset) chan = take m chan @ take (o' - (offset + m)) (drop m chan)"
          by (simp only: take_add)
        moreover have "offset + length (take m chan) \<le> length inbuf"
          using m "1.prems" by simp
        ultimately show ?thesis
          using store_store[of offset "take m chan" inbuf] len by simp
      qed
      have join_drop: "drop (o' - (offset + m)) (drop m chan) = drop (o' - offset) chan"
        if "offset + m \<le> o'" for o'
        using that by (simp add: add.commute)
      show ?thesis
        unfolding unfold using IH more m
        by (auto simp: join_store join_drop split: prod.splits)
    qed
  qed
qed

section \<open>Row ranges as natural numbers\<close>

lemma sint_of_nat_32:
  assumes "k < 2147483648"
  shows "sint (of_nat k :: cint) = int k"
proof -
  have "sint (word_of_int (int k) :: cint) = int k"
    using assms by (intro sint_word_of_int_32) simp_all
  then show ?thesis by simp
qed

lemma split_point_first_row:
  assumes "0 < p"
  shows "split_point (int n) (int p) (int i) = int (first_row n p i)"
proof -
  have "int n sdiv int p = int (n div p)" "int n smod int p = int (n mod p)"
    using assms by (simp_all add: sdiv_smod_nonneg zdiv_int zmod_int)
  then show ?thesis
    by (simp add: split_point_def first_row_def min_def)
qed

lemma work_range_eq:
  assumes "n < 2147483648" "p < 2147483648" "i < p"
  shows "work_range n p i = (first_row n p i, first_row n p (Suc i))"
proof -
  have s: "sint (of_nat n :: cint) = int n" "sint (of_nat p :: cint) = int p"
      "sint (of_nat i :: cint) = int i"
    using assms by (simp_all add: sint_of_nat_32)
  have p: "0 < p" using assms by simp
  have h: "0 < sint (of_nat p :: cint)" "0 \<le> sint (of_nat i :: cint)"
      "sint (of_nat i :: cint) < sint (of_nat p :: cint)"
    using assms by (simp_all add: s)
  have "sint (fst (get_work_range (of_nat n) (of_nat p) (of_nat i))) = int (first_row n p i)"
    using get_work_range_sint(1)[OF h, of "of_nat n"] split_point_first_row[OF p, of n i]
    by (simp add: s)
  moreover have "sint (snd (get_work_range (of_nat n) (of_nat p) (of_nat i))) = int (first_row n p (Suc i))"
    using get_work_range_sint(2)[OF h, of "of_nat n"] split_point_first_row[OF p, of n "i + 1"]
    by (simp add: s add.commute)
  ultimately show ?thesis
    by (auto simp: work_range_def split: prod.splits)
qed

lemma first_row_0: "first_row n p 0 = 0"
  by (simp add: first_row_def)

lemma first_row_p:
  assumes "0 < p"
  shows "first_row n p p = n"
proof -
  have "n mod p < p" using assms by simp
  then have "min p (n mod p) = n mod p" by simp
  then show ?thesis by (simp add: first_row_def)
qed

lemma first_row_step: "first_row n p i \<le> first_row n p (Suc i)"
  by (simp add: first_row_def min_def)

lemma first_row_mono: "i \<le> j \<Longrightarrow> first_row n p i \<le> first_row n p j"
proof (induction j)
  case 0
  then show ?case by simp
next
  case (Suc j)
  then show ?case
    using first_row_step[of n p j] by (cases "i = Suc j") auto
qed

lemma first_row_le: "0 < p \<Longrightarrow> i \<le> p \<Longrightarrow> first_row n p i \<le> n"
  using first_row_mono[of i p n p] by (simp add: first_row_p)

section \<open>One round of the collecting loop\<close>

lemma read_loop_out:
  "read_loop rd i bytes inbuf offset k chan out =
     (case read_loop rd i bytes inbuf offset k chan [] of
        (inbuf', offset', k', chan', ms) \<Rightarrow> (inbuf', offset', k', chan', out @ ms))"
proof (induction rd i bytes inbuf offset k chan out rule: read_loop.induct)
  case (1 rd i bytes inbuf offset k chan out)
  show ?case
  proof (cases "offset < bytes")
    case False
    then show ?thesis
      by (subst (1 2) read_loop.simps) simp
  next
    case more: True
    obtain r data chan' where sr: "sys_read (rd k) chan (bytes - offset) = (r, data, chan')"
      by (cases "sys_read (rd k) chan (bytes - offset)") auto
    show ?thesis
    proof (cases "r \<le> 0")
      case True
      then show ?thesis
        using more sr by (subst (1 2) read_loop.simps) simp
    next
      case False
      have l: "read_loop rd i bytes inbuf offset k chan out =
          read_loop rd i bytes (store inbuf offset data) (offset + nat r) (k + 1) chan' out"
        using more sr False by (subst read_loop.simps) simp
      have r: "read_loop rd i bytes inbuf offset k chan [] =
          read_loop rd i bytes (store inbuf offset data) (offset + nat r) (k + 1) chan' []"
        using more sr False by (subst read_loop.simps) simp
      show ?thesis
        unfolding l r using "1.IH"[OF more sr[symmetric] _ False] by simp
    qed
  qed
qed

lemma parent_read_out:
  "parent_read n p e i chan out =
     (case parent_read n p e i chan [] of
        (inbuf', offset', k', chan', ms) \<Rightarrow> (inbuf', offset', k', chan', out @ ms))"
  unfolding parent_read_def Let_def
  by (cases "work_range n p i") (simp add: read_loop_out[where out = out])

lemma collect_eq:
  "collect n p e chans i (g, out) =
     (copy_block n (fst (work_range n p i)) (snd (work_range n p i))
        (fst (parent_read n p e i (chans i) [])) g,
      out @ snd (snd (snd (snd (parent_read n p e i (chans i) [])))))"
  unfolding collect_def
  by (subst parent_read_out) (simp split: prod.splits)

lemma nth_concat_rows:
  assumes "k < length rs" "c < n"
  shows "concat (map (\<lambda>r. map (f r) [0..<n]) rs) ! (k * n + c) = f (rs ! k) c"
  using assms(1)
proof (induction rs arbitrary: k)
  case Nil
  then show ?case by simp
next
  case (Cons a rs)
  show ?case
  proof (cases k)
    case 0
    then show ?thesis using assms(2) by (simp add: nth_append)
  next
    case (Suc k')
    then have "k' < length rs" using Cons.prems by simp
    then have "concat (map (\<lambda>r. map (f r) [0..<n]) rs) ! (k' * n + c) = f (rs ! k') c"
      by (rule Cons.IH)
    then show ?thesis
      using Suc by (simp add: nth_append)
  qed
qed

lemma block_rows_ints_bytes:
  assumes "start \<le> end"
  shows "block_rows n start end (ints_bytes (concat (ref_rows n g start end))) = ref_rows n g start end"
proof -
  let ?f = "\<lambda>r c. acc_upto (A g) (B g) r c n"
  let ?xs = "concat (map (\<lambda>r. map (?f r) [0..<n]) [start..<end])"
  have "load_int (ints_bytes ?xs) ((r - start) * n + c) = ?f r c"
    if "start \<le> r" "r < end" "c < n" for r c
  proof -
    have k: "r - start < length [start..<end]" using that by simp
    have "(r - start) * n + c < (r - start) * n + n" using that by simp
    also have "\<dots> = (r - start + 1) * n" by simp
    also have "\<dots> \<le> (end - start) * n"
      using that by (intro mult_le_mono1) simp
    finally have "(r - start) * n + c < length ?xs"
      by (simp add: length_concat_rows)
    then have "load_int (ints_bytes ?xs) ((r - start) * n + c) = ?xs ! ((r - start) * n + c)"
      using load_int_ints_bytes[of _ ?xs "[]"] by simp
    also have "\<dots> = ?f ([start..<end] ! (r - start)) c"
      using k that(3) by (rule nth_concat_rows)
    finally show ?thesis using that by simp
  qed
  then show ?thesis
    by (simp add: block_rows_def ref_rows_def)
qed

lemma length_block_rows: "length (block_rows n s e inbuf) = e - s"
  by (simp add: block_rows_def)

lemma block_rows_row_length: "row \<in> set (block_rows n s e inbuf) \<Longrightarrow> length row = n"
  by (auto simp: block_rows_def)

lemma length_blocks:
  "length (concat (map (\<lambda>i. block_rows n (first_row n p i) (first_row n p (Suc i)) (f i)) [0..<k])) =
     first_row n p k"
proof (induction k)
  case 0
  show ?case by (simp add: first_row_0)
next
  case (Suc k)
  then show ?case
    using first_row_step[of n p k] by (simp add: length_block_rows)
qed

lemma square_blocks:
  assumes "square n m" "0 < p" "k \<le> p"
  shows "square n (concat (map (\<lambda>i. block_rows n (first_row n p i) (first_row n p (Suc i)) (f i)) [0..<k])
            @ drop (first_row n p k) m)"
proof -
  let ?X = "concat (map (\<lambda>i. block_rows n (first_row n p i) (first_row n p (Suc i)) (f i)) [0..<k])"
  have "first_row n p k \<le> n"
    using assms by (intro first_row_le)
  then have "length (?X @ drop (first_row n p k) m) = n"
    using assms(1) length_blocks[of n p f k] by (simp add: square_length)
  moreover have "\<forall>row \<in> set ?X. length row = n"
    by (auto simp: block_rows_row_length)
  moreover have "\<forall>row \<in> set (drop (first_row n p k) m). length row = n"
    using assms(1) by (auto simp: square_def list_all_iff dest: in_set_dropD)
  ultimately show ?thesis
    by (auto simp: square_def list_all_iff)
qed

lemma collect_all:
  assumes "n < 2147483648" "p < 2147483648" "k \<le> p" "square n (C g)"
  shows "fold (collect n p e chans) [0..<k] (g, out) =
     (g\<lparr>C := concat (map (\<lambda>i. block_rows n (first_row n p i) (first_row n p (Suc i))
                          (fst (parent_read n p e i (chans i) []))) [0..<k])
            @ drop (first_row n p k) (C g)\<rparr>,
      out @ concat (map (\<lambda>i. snd (snd (snd (snd (parent_read n p e i (chans i) []))))) [0..<k]))"
  using assms(3)
proof (induction k)
  case 0
  show ?case by (simp add: first_row_0)
next
  case (Suc k)
  let ?B = "\<lambda>i. block_rows n (first_row n p i) (first_row n p (Suc i)) (fst (parent_read n p e i (chans i) []))"
  let ?X = "concat (map ?B [0..<k])"
  let ?ms = "\<lambda>i. snd (snd (snd (snd (parent_read n p e i (chans i) []))))"
  let ?gk = "g\<lparr>C := ?X @ drop (first_row n p k) (C g)\<rparr>"
  have kp: "k < p" "0 < p" using Suc.prems by simp_all
  have wr: "work_range n p k = (first_row n p k, first_row n p (Suc k))"
    using assms(1,2) kp by (intro work_range_eq)
  have le: "first_row n p k \<le> first_row n p (Suc k)" "first_row n p (Suc k) \<le> n"
    using first_row_step[of n p k] first_row_le[OF kp(2), of "k + 1" n] kp by simp_all
  have sq: "square n (C ?gk)"
    using square_blocks[OF assms(4) kp(2), where k = k and f = "\<lambda>i. fst (parent_read n p e i (chans i) [])"] kp
    by simp
  have lenX: "length ?X = first_row n p k"
    by (rule length_blocks)
  have IH: "fold (collect n p e chans) [0..<k] (g, out) = (?gk, out @ concat (map ?ms [0..<k]))"
    using Suc kp by simp
  have cb: "copy_block n (first_row n p k) (first_row n p (Suc k)) (fst (parent_read n p e k (chans k) [])) ?gk =
      ?gk\<lparr>C := take (first_row n p k) (C ?gk) @ ?B k @ drop (first_row n p (Suc k)) (C ?gk)\<rparr>"
    using le sq by (simp only: copy_block_eq block_rows_def)
  have t: "take (first_row n p k) (C ?gk) = ?X"
    using lenX by simp
  have d: "drop (first_row n p (Suc k)) (C ?gk) = drop (first_row n p (Suc k)) (C g)"
    using lenX le by simp
  have "fold (collect n p e chans) [0..<Suc k] (g, out) =
      collect n p e chans k (?gk, out @ concat (map ?ms [0..<k]))"
    using IH by simp
  also have "\<dots> = (?gk\<lparr>C := ?X @ ?B k @ drop (first_row n p (Suc k)) (C g)\<rparr>,
      (out @ concat (map ?ms [0..<k])) @ ?ms k)"
    unfolding collect_eq wr fst_conv snd_conv cb t d ..
  finally show ?case
    by simp
qed

section \<open>Each worker's transfer\<close>

lemma length_worker_stream:
  "length (worker_stream n p g i) = expected_bytes n p i"
  by (simp add: worker_stream_def expected_bytes_def length_ints_bytes ref_rows_def length_concat_rows)

lemma child_result:
  assumes "n < 2147483648" "p < 2147483648" "i < p"
  shows "case child n p e g i of
     (written, k, chan, out) \<Rightarrow>
        written \<le> expected_bytes n p i
        \<and> chan = take written (worker_stream n p g i)
        \<and> out = (if written < expected_bytes n p i then [Child_write_failed i] else [])
        \<and> ((\<forall>j. 0 < write_ret e i j) \<longrightarrow> written = expected_bytes n p i)
        \<and> (expected_bytes n p i = 0 \<longrightarrow> k = 0)"
proof -
  let ?s = "first_row n p i" and ?e = "first_row n p (Suc i)"
  have wr: "work_range n p i = (?s, ?e)"
    using assms by (rule work_range_eq)
  have le: "?s \<le> ?e" by (rule first_row_step)
  have cc: "child_compute n g ?s ?e (map (child_stack e i) [0..<(?e - ?s) * n]) =
      concat (ref_rows n g ?s ?e)"
    unfolding ref_rows_def using le by (intro child_compute_eq) simp_all
  have ch: "child n p e g i =
      write_loop (write_ret e i) i (worker_stream n p g i) (expected_bytes n p i) 0 0 [] []"
    using cc by (simp add: child_def wr Let_def worker_stream_def expected_bytes_def)
  show ?thesis
    unfolding ch
    using write_loop_result[where written = 0 and bytes = "expected_bytes n p i"
        and buf = "worker_stream n p g i" and wr = "write_ret e i" and i = i and k = 0
        and chan = "[]" and out = "[]"]
    by (auto simp: length_worker_stream split: prod.splits)
qed

lemma worker_read_result:
  assumes "n < 2147483648" "p < 2147483648" "i < p"
  shows "case worker_read n p e g i of
     (inbuf, offset, k, chan, ms) \<Rightarrow>
        offset \<le> expected_bytes n p i
        \<and> inbuf = take offset (worker_stream n p g i)
                   @ drop offset (map (parent_stack e i) [0..<expected_bytes n p i])
        \<and> ms = (if offset < expected_bytes n p i then [Parent_read_failed i] else [])
        \<and> ((\<forall>j. 0 < write_ret e i j) \<and> (\<forall>j. 0 < read_ret e i j) \<longrightarrow> offset = expected_bytes n p i)
        \<and> (expected_bytes n p i = 0 \<longrightarrow> k = 0)"
proof -
  obtain w kw chan out where c: "child n p e g i = (w, kw, chan, out)"
    by (cases "child n p e g i") auto
  have cr: "w \<le> expected_bytes n p i" "chan = take w (worker_stream n p g i)"
      "(\<forall>j. 0 < write_ret e i j) \<longrightarrow> w = expected_bytes n p i"
    using child_result[OF assms, where e = e and g = g] c by simp_all
  have lc: "length chan = w"
    using cr by (simp add: length_worker_stream)
  let ?b = "expected_bytes n p i"
  let ?in0 = "map (parent_stack e i) [0..<?b]"
  have pr: "worker_read n p e g i = read_loop (read_ret e i) i ?b ?in0 0 0 chan []"
    by (cases "work_range n p i") (simp add: worker_read_def parent_read_def c expected_bytes_def Let_def)
  obtain inbuf off k chan' ms where r: "read_loop (read_ret e i) i ?b ?in0 0 0 chan [] = (inbuf, off, k, chan', ms)"
    by (cases "read_loop (read_ret e i) i ?b ?in0 0 0 chan []") auto
  have rr: "off \<le> ?b" "off \<le> length chan" "inbuf = store ?in0 0 (take off chan)"
      "ms = (if off < ?b then [Parent_read_failed i] else [])"
      "(\<forall>j. 0 < read_ret e i j) \<and> ?b \<le> length chan \<longrightarrow> off = ?b"
      "?b = 0 \<longrightarrow> k = 0"
    using read_loop_result[where offset = 0 and bytes = ?b and inbuf = ?in0
        and rd = "read_ret e i" and i = i and k = 0 and chan = chan and out = "[]"] r
    by simp_all
  have "take off chan = take off (worker_stream n p g i)"
    using rr(2) lc cr(2) by simp
  moreover have "length (take off chan) = off"
    using rr(2) by simp
  ultimately have "inbuf = take off (worker_stream n p g i) @ drop off ?in0"
    using rr(3) by (simp add: store_def)
  then show ?thesis
    unfolding pr r using rr cr lc by auto
qed

lemma worker_read_complete:
  assumes "n < 2147483648" "p < 2147483648" "i < p"
    and "fst (snd (worker_read n p e g i)) = expected_bytes n p i"
  shows "block_rows n (first_row n p i) (first_row n p (Suc i)) (fst (worker_read n p e g i)) =
     ref_rows n g (first_row n p i) (first_row n p (Suc i))"
proof -
  have wr: "work_range n p i = (first_row n p i, first_row n p (Suc i))"
    using assms(1-3) by (rule work_range_eq)
  have "fst (worker_read n p e g i) = worker_stream n p g i"
    using worker_read_result[OF assms(1-3), where e = e and g = g] assms(4)
    by (auto simp: length_worker_stream split: prod.splits)
  then show ?thesis
    using block_rows_ints_bytes[OF first_row_step[where n = n and p = p and i = i],
        where n = n and g = g]
    by (simp add: worker_stream_def wr)
qed

section \<open>The whole run\<close>

lemma multiply_reference_frame:
  assumes "square n (C_ref g0)"
  shows "A (multiply_reference n g0) = A g0" "B (multiply_reference n g0) = B g0"
    "C (multiply_reference n g0) = C g0"
    "C_ref (multiply_reference n g0) = ref_rows n g0 0 n"
  by (simp_all add: multiply_reference_eq[OF assms] ref_rows_def)

lemma main_from_run:
  assumes "n < 2147483648" "0 < p" "p < 2147483648"
    and "square n (C g0)" "square n (C_ref g0)"
    and "\<forall>i. i < p \<longrightarrow> 0 \<le> pipe_ret e i" "\<forall>i. i < p \<longrightarrow> 0 \<le> fork_ret e i"
  shows "main_from n p e g0 =
     \<lparr>exit_status = 0,
       console = Banner n p # read_messages n p e (multiply_reference n g0) @
         [Result_matrix (assembled n p e (multiply_reference n g0)),
          Reference_matrix (C_ref (multiply_reference n g0)),
          if compare_results n ((multiply_reference n g0)\<lparr>C := assembled n p e (multiply_reference n g0)\<rparr>) = 0
          then Success else Error_differs],
       child_console = map (\<lambda>i. snd (snd (snd (child n p e (multiply_reference n g0) i)))) [0..<p],
       final = (multiply_reference n g0)\<lparr>C := assembled n p e (multiply_reference n g0)\<rparr>\<rparr>"
proof -
  define g where "g = multiply_reference n g0"
  define kids where "kids = map (child n p e g) [0..<p]"
  define chans where "chans = (\<lambda>i. fst (snd (snd (kids ! i))))"
  have sq: "square n (C g)"
    using assms(4) multiply_reference_frame(3)[OF assms(5)] by (simp add: g_def)
  have lenC: "length (C g) = n"
    using sq by (rule square_length)
  have f1: "List.find (\<lambda>i. pipe_ret e i < 0) [0..<p] = None"
    using assms(6) by (auto simp: find_None_iff not_less)
  have f2: "List.find (\<lambda>i. fork_ret e i < 0) [0..<p] = None"
    using assms(7) by (auto simp: find_None_iff not_less)
  have ch: "parent_read n p e i (chans i) [] = worker_read n p e g i" if "i < p" for i
    using that by (simp add: chans_def kids_def worker_read_def)
  have wr: "work_range n p i = (first_row n p i, first_row n p (Suc i))" if "i < p" for i
    using assms(1,3) that by (rule work_range_eq)
  have blocks: "concat (map (\<lambda>i. block_rows n (first_row n p i) (first_row n p (Suc i))
        (fst (parent_read n p e i (chans i) []))) [0..<p]) = assembled n p e g"
    unfolding assembled_def
    by (rule arg_cong[where f = concat], rule map_cong) (simp_all add: ch wr)
  have msgs: "concat (map (\<lambda>i. snd (snd (snd (snd (parent_read n p e i (chans i) []))))) [0..<p]) =
      read_messages n p e g"
    unfolding read_messages_def
    by (rule arg_cong[where f = concat], rule map_cong) (simp_all add: ch)
  have "fold (collect n p e chans) [0..<p] (g, [Banner n p]) =
      (g\<lparr>C := assembled n p e g @ drop (first_row n p p) (C g)\<rparr>, [Banner n p] @ read_messages n p e g)"
    using collect_all[OF assms(1,3) order_refl sq, of e chans "[Banner n p]"]
    by (simp only: blocks msgs)
  then have fold_eq: "fold (collect n p e chans) [0..<p] (g, [Banner n p]) =
      (g\<lparr>C := assembled n p e g\<rparr>, Banner n p # read_messages n p e g)"
    using lenC by (simp add: first_row_p[OF assms(2)])
  have kc: "map (\<lambda>k. snd (snd (snd k))) kids = map (\<lambda>i. snd (snd (snd (child n p e g i)))) [0..<p]"
    by (simp add: kids_def)
  show ?thesis
    unfolding main_from_def Let_def g_def[symmetric] kids_def[symmetric] chans_def[symmetric]
    by (simp add: f1 f2 fold_eq kc)
qed

lemma ref_rows_append:
  assumes "a \<le> b" "b \<le> c"
  shows "ref_rows n g a b @ ref_rows n g b c = ref_rows n g a c"
proof -
  have "[a..<c] = [a..<b] @ [b..<c]"
    using assms by (metis le_Suc_ex upt_add_eq_append)
  then show ?thesis
    by (simp add: ref_rows_def)
qed

lemma concat_ref_rows:
  "concat (map (\<lambda>i. ref_rows n g (first_row n p i) (first_row n p (Suc i))) [0..<k]) =
     ref_rows n g 0 (first_row n p k)"
proof (induction k)
  case 0
  show ?case by (simp add: ref_rows_def first_row_0)
next
  case (Suc k)
  have "ref_rows n g 0 (first_row n p k) @ ref_rows n g (first_row n p k) (first_row n p (Suc k)) =
      ref_rows n g 0 (first_row n p (Suc k))"
    by (intro ref_rows_append first_row_step) simp
  then show ?case
    using Suc by simp
qed

lemma assembled_blocks:
  assumes "n < 2147483648" "p < 2147483648"
  shows "assembled n p e g =
     concat (map (\<lambda>i. block_rows n (first_row n p i) (first_row n p (Suc i))
                         (fst (worker_read n p e g i))) [0..<p])"
  unfolding assembled_def
  by (rule arg_cong[where f = concat], rule map_cong)
     (simp_all add: work_range_eq[OF assms])

lemma assembled_complete:
  assumes "n < 2147483648" "0 < p" "p < 2147483648"
    and "\<forall>i. i < p \<longrightarrow> fst (snd (worker_read n p e g i)) = expected_bytes n p i"
  shows "assembled n p e g = ref_rows n g 0 n"
proof -
  have "assembled n p e g =
      concat (map (\<lambda>i. ref_rows n g (first_row n p i) (first_row n p (Suc i))) [0..<p])"
    unfolding assembled_blocks[OF assms(1,3)]
    by (rule arg_cong[where f = concat], rule map_cong)
       (simp_all add: worker_read_complete[OF assms(1,3)] assms(4))
  then show ?thesis
    by (simp add: concat_ref_rows first_row_p[OF assms(2)])
qed

lemma assembled_rows:
  assumes "n < 2147483648" "p < 2147483648" "j < p"
  shows "take (first_row n p (Suc j) - first_row n p j) (drop (first_row n p j) (assembled n p e g)) =
     block_rows n (first_row n p j) (first_row n p (Suc j)) (fst (worker_read n p e g j))"
proof -
  let ?B = "\<lambda>i. block_rows n (first_row n p i) (first_row n p (Suc i)) (fst (worker_read n p e g i))"
  have "[0..<p] = [0..<j] @ j # [Suc j..<p]"
    using assms(3) by (metis le_add1 less_imp_add_positive upt_add_eq_append upt_conv_Cons plus_nat.add_0)
  then have "assembled n p e g = concat (map ?B [0..<j]) @ ?B j @ concat (map ?B [Suc j..<p])"
    unfolding assembled_blocks[OF assms(1,2)] by simp
  moreover have "length (concat (map ?B [0..<j])) = first_row n p j"
    by (rule length_blocks)
  moreover have "length (?B j) = first_row n p (Suc j) - first_row n p j"
    by (rule length_block_rows)
  ultimately show ?thesis by simp
qed

lemma length_assembled:
  assumes "n < 2147483648" "0 < p" "p < 2147483648"
  shows "length (assembled n p e g) = n"
  unfolding assembled_blocks[OF assms(1,3)]
  using length_blocks[where n = n and p = p and k = p and f = "\<lambda>i. fst (worker_read n p e g i)"]
  by (simp add: first_row_p[OF assms(2)])

section \<open>Further facts about the kernels, the initial matrices and the console\<close>

lemma acc_upto_word_of_int:
  "acc_upto a b r c m = word_of_int (\<Sum>k = 0..<m. sint (a ! r ! k) * sint (b ! k ! c))"
  by (simp add: acc_upto_sum)

lemma acc_upto_exact:
  assumes "- 2147483648 \<le> (\<Sum>k = 0..<m. sint (a ! r ! k) * sint (b ! k ! c))"
    and "(\<Sum>k = 0..<m. sint (a ! r ! k) * sint (b ! k ! c)) < 2147483648"
  shows "sint (acc_upto a b r c m) = (\<Sum>k = 0..<m. sint (a ! r ! k) * sint (b ! k ! c))"
  unfolding acc_upto_word_of_int using assms by (rule sint_word_of_int_32)

lemma fits_int:
  assumes "4 * n * n < (2147483648 :: nat)"
  shows "n < 2147483648"
proof -
  have "n \<le> n * n" by simp
  then show ?thesis using assms by linarith
qed

lemma ref_rows_nth:
  assumes "start \<le> r" "r < end" "c < n"
  shows "ref_rows n g start end ! (r - start) ! c = acc_upto (A g) (B g) r c n"
  using assms by (simp add: ref_rows_def)

lemma square_ref_rows: "square n (ref_rows n g 0 n)"
  by (simp add: square_def ref_rows_def list_all_iff)

lemma init_inner:
  "fold (\<lambda>j g. g\<lparr>A := mat_set (A g) i j (fa i j), B := mat_set (B g) i j (fb i j)\<rparr>) js g =
     g\<lparr>A := fold (\<lambda>j m. mat_set m i j (fa i j)) js (A g),
       B := fold (\<lambda>j m. mat_set m i j (fb i j)) js (B g)\<rparr>"
  by (induction js arbitrary: g) simp_all

lemma init_outer:
  "fold (\<lambda>i. fold (\<lambda>j g. g\<lparr>A := mat_set (A g) i j (fa i j), B := mat_set (B g) i j (fb i j)\<rparr>) js) rs g =
     g\<lparr>A := fold (\<lambda>i. fold (\<lambda>j m. mat_set m i j (fa i j)) js) rs (A g),
       B := fold (\<lambda>i. fold (\<lambda>j m. mat_set m i j (fb i j)) js) rs (B g)\<rparr>"
  by (induction rs arbitrary: g) (simp_all add: init_inner)

lemma init_matrices_eq:
  assumes "square n (A g)" "square n (B g)"
  shows "init_matrices n g =
     g\<lparr>A := map (\<lambda>i. map (\<lambda>j. of_nat i + of_nat j + 1) [0..<n]) [0..<n],
       B := map (\<lambda>i. map (\<lambda>j. if i = j then 2 else 1) [0..<n]) [0..<n]\<rparr>"
proof -
  have a: "fold (\<lambda>i. fold (\<lambda>j m. mat_set m i j (of_nat i + of_nat j + 1)) [0..<n]) [0..<0 + n] (A g) =
      take 0 (A g) @ map (\<lambda>i. map (\<lambda>j. of_nat i + of_nat j + 1) [0..<n]) [0..<0 + n] @ drop (0 + n) (A g)"
    using assms(1) by (intro fold_mat_set_rows_aux) (simp_all add: square_length square_rows)
  have b: "fold (\<lambda>i. fold (\<lambda>j m. mat_set m i j (if i = j then 2 else 1)) [0..<n]) [0..<0 + n] (B g) =
      take 0 (B g) @ map (\<lambda>i. map (\<lambda>j. if i = j then 2 else 1) [0..<n]) [0..<0 + n] @ drop (0 + n) (B g)"
    using assms(2) by (intro fold_mat_set_rows_aux) (simp_all add: square_length square_rows)
  show ?thesis
    unfolding init_matrices_def init_outer
    using a b assms by (simp add: square_length)
qed

lemma square_zero: "square n (replicate n (replicate n 0))"
  by (simp add: square_def list_all_iff)

lemma init_startup:
  "init_matrices n (startup n) =
     \<lparr>A = map (\<lambda>i. map (\<lambda>j. of_nat i + of_nat j + 1) [0..<n]) [0..<n],
       B = map (\<lambda>i. map (\<lambda>j. if i = j then 2 else 1) [0..<n]) [0..<n],
       C = replicate n (replicate n 0), C_ref = replicate n (replicate n 0)\<rparr>"
  by (subst init_matrices_eq) (simp_all add: startup_def square_zero)

lemma main_from_reliable:
  assumes "n < 2147483648" "0 < p" "p < 2147483648"
    and "square n (C g0)" "square n (C_ref g0)"
    and "\<forall>i k. i < p \<longrightarrow> 0 \<le> pipe_ret e i \<and> 0 \<le> fork_ret e i \<and> 0 < write_ret e i k \<and> 0 < read_ret e i k"
  shows "main_from n p e g0 =
     \<lparr>exit_status = 0,
       console = [Banner n p, Result_matrix (ref_rows n g0 0 n), Reference_matrix (ref_rows n g0 0 n), Success],
       child_console = replicate p [],
       final = g0\<lparr>C := ref_rows n g0 0 n, C_ref := ref_rows n g0 0 n\<rparr>\<rparr>"
proof -
  let ?g = "multiply_reference n g0"
  have g: "?g = g0\<lparr>C_ref := ref_rows n g0 0 n\<rparr>"
    by (simp add: multiply_reference_eq[OF assms(5)] ref_rows_def)
  have rr: "ref_rows n ?g 0 n = ref_rows n g0 0 n"
    by (simp add: g ref_rows_def)
  have complete: "fst (snd (worker_read n p e ?g i)) = expected_bytes n p i
      \<and> snd (snd (snd (snd (worker_read n p e ?g i)))) = []" if "i < p" for i
    using worker_read_result[OF assms(1,3) that, where e = e and g = ?g] assms(6) that
    by (auto split: prod.splits)
  have kid: "snd (snd (snd (child n p e ?g i))) = []" if "i < p" for i
    using child_result[OF assms(1,3) that, where e = e and g = ?g] assms(6) that
    by (auto split: prod.splits)
  have asm: "assembled n p e ?g = ref_rows n g0 0 n"
    using assembled_complete[OF assms(1-3), where e = e and g = ?g] complete rr by simp
  have msgs: "read_messages n p e ?g = []"
    using complete by (simp add: read_messages_def)
  have "map (\<lambda>i. snd (snd (snd (child n p e ?g i)))) [0..<p] = map (\<lambda>i. []) [0..<p]"
    by (rule map_cong) (simp_all add: kid)
  then have kids: "map (\<lambda>i. snd (snd (snd (child n p e ?g i)))) [0..<p] = replicate p []"
    by (simp add: map_replicate_const)
  have fin: "?g\<lparr>C := ref_rows n g0 0 n\<rparr> = g0\<lparr>C := ref_rows n g0 0 n, C_ref := ref_rows n g0 0 n\<rparr>"
    by (simp add: g)
  have cmp: "compare_results n (g0\<lparr>C := ref_rows n g0 0 n, C_ref := ref_rows n g0 0 n\<rparr>) = 0"
    unfolding compare_results_def by (subst compare_from_zero_iff) simp_all
  have pf: "\<forall>i. i < p \<longrightarrow> 0 \<le> pipe_ret e i" "\<forall>i. i < p \<longrightarrow> 0 \<le> fork_ret e i"
    using assms(6) by auto
  show ?thesis
    unfolding main_from_run[OF assms(1-5) pf] asm msgs kids fin
    by (simp add: cmp g)
qed

lemma rows_of_ref_rows:
  assumes "s \<le> e" "e \<le> n"
  shows "rows_of (ref_rows n g 0 n) (s, e) = ref_rows n g s e"
proof -
  have "ref_rows n g 0 n = ref_rows n g 0 s @ ref_rows n g s e @ ref_rows n g e n"
    using assms by (simp add: ref_rows_append)
  moreover have "length (ref_rows n g 0 s) = s" "length (ref_rows n g s e) = e - s"
    by (simp_all add: ref_rows_def)
  ultimately show ?thesis
    by (simp add: rows_of_def)
qed

lemma read_failed_in_messages:
  assumes "n < 2147483648" "p < 2147483648" "j < p"
  shows "Parent_read_failed j \<in> set (read_messages n p e g) \<longleftrightarrow>
     fst (snd (worker_read n p e g j)) < expected_bytes n p j"
proof -
  have m: "snd (snd (snd (snd (worker_read n p e g k)))) =
      (if fst (snd (worker_read n p e g k)) < expected_bytes n p k then [Parent_read_failed k] else [])"
    if "k < p" for k
    using worker_read_result[OF assms(1,2) that, where e = e and g = g]
    by (auto split: prod.splits)
  have "Parent_read_failed j \<in> set (read_messages n p e g) \<longleftrightarrow>
      (\<exists>k. k < p \<and> Parent_read_failed j \<in> set (snd (snd (snd (snd (worker_read n p e g k))))))"
    by (auto simp: read_messages_def)
  also have "\<dots> \<longleftrightarrow> (\<exists>k. k < p \<and> k = j \<and> fst (snd (worker_read n p e g k)) < expected_bytes n p k)"
    using m by (auto split: if_splits)
  finally show ?thesis
    using assms(3) by auto
qed

lemma ideal_sum_closed:
  "2 * ideal_sum i j m = 2 * int m * int i + int m * (int m + 1) + (if j < m then 2 * (int i + int j + 1) else 0)"
proof (induction m)
  case 0
  show ?case by (simp add: ideal_sum_def)
next
  case (Suc m)
  have "ideal_sum i j (Suc m) = ideal_sum i j m + (int i + int m + 1) * (if m = j then 2 else 1)"
    by (simp add: ideal_sum_def)
  then show ?case
    using Suc by (auto simp: algebra_simps less_Suc_eq)
qed

lemma ideal_sum_bounds:
  assumes "i < 10" "j < 10" "m \<le> 10"
  shows "0 \<le> ideal_sum i j m" "ideal_sum i j m \<le> 164"
proof -
  show "0 \<le> ideal_sum i j m"
    unfolding ideal_sum_def by (intro sum_nonneg) simp
  have "int m * int i \<le> 10 * 9"
    using assms by (intro mult_mono) simp_all
  moreover have "int m * (int m + 1) \<le> 10 * 11"
    using assms by (intro mult_mono) simp_all
  ultimately have "2 * ideal_sum i j m \<le> 328"
    using assms unfolding ideal_sum_closed by (simp split: if_splits)
  then show "ideal_sum i j m \<le> 164" by simp
qed

lemma init_entries:
  assumes "i < n" "j < n"
  shows "A (init_matrices n (startup n)) ! i ! j = of_nat i + of_nat j + 1"
    and "B (init_matrices n (startup n)) ! i ! j = (if i = j then 2 else 1)"
  using assms by (simp_all add: init_startup)

lemma sint_init_entries:
  assumes "i < 10" "j < 10"
  shows "sint (A (init_matrices N (startup N)) ! i ! j) = int i + int j + 1"
    and "sint (B (init_matrices N (startup N)) ! i ! j) = (if i = j then 2 else 1)"
proof -
  have "sint (of_nat (i + j + 1) :: cint) = int (i + j + 1)"
    using assms by (intro sint_of_nat_32) simp
  then show "sint (A (init_matrices N (startup N)) ! i ! j) = int i + int j + 1"
    using assms by (simp add: init_entries N_def add.commute)
  show "sint (B (init_matrices N (startup N)) ! i ! j) = (if i = j then 2 else 1)"
    using assms by (simp add: init_entries N_def)
qed

lemma init_sum_ideal:
  assumes "i < 10" "j < 10" "m \<le> 10"
  shows "(\<Sum>k = 0..<m. sint (A (init_matrices N (startup N)) ! i ! k)
            * sint (B (init_matrices N (startup N)) ! k ! j)) = ideal_sum i j m"
  unfolding ideal_sum_def
  using assms by (intro sum.cong) (simp_all add: sint_init_entries)

lemma get_work_range_10_4:
  "get_work_range (of_nat N) (of_nat P) 0 = (0, 3)"
  "get_work_range (of_nat N) (of_nat P) 1 = (3, 6)"
  "get_work_range (of_nat N) (of_nat P) 2 = (6, 8)"
  "get_work_range (of_nat N) (of_nat P) 3 = (8, 10)"
  by (simp_all add: get_work_range_def N_def P_def c_div_def c_mod_def word_sless_alt
      signed_divide_int_def signed_modulo_int_def)

lemma square_assembled:
  assumes "n < 2147483648" "0 < p" "p < 2147483648"
  shows "square n (assembled n p e g)"
proof -
  have "\<forall>row \<in> set (assembled n p e g). length row = n"
    unfolding assembled_blocks[OF assms(1,3)] by (auto simp: block_rows_row_length)
  then show ?thesis
    using length_assembled[OF assms, of e g] by (simp add: square_def list_all_iff)
qed

lemma square_eq_iff:
  assumes "square n a" "square n b"
  shows "a = b \<longleftrightarrow> (\<forall>i j. i < n \<and> j < n \<longrightarrow> a ! i ! j = b ! i ! j)"
proof
  assume "a = b"
  then show "\<forall>i j. i < n \<and> j < n \<longrightarrow> a ! i ! j = b ! i ! j" by simp
next
  assume h: "\<forall>i j. i < n \<and> j < n \<longrightarrow> a ! i ! j = b ! i ! j"
  have "a ! i = b ! i" if "i < n" for i
    using h that square_rows[OF assms(1) that] square_rows[OF assms(2) that]
    by (simp add: list_eq_iff_nth_eq)
  then show "a = b"
    using square_length[OF assms(1)] square_length[OF assms(2)]
    by (simp add: list_eq_iff_nth_eq)
qed

lemma compare_results_eq_iff:
  assumes "square n (C g)" "square n (C_ref g)"
  shows "compare_results n g = 0 \<longleftrightarrow> C g = C_ref g"
proof -
  have "compare_results n g = 0 \<longleftrightarrow>
      (\<forall>r c. r < n \<and> c < n \<and> (0 < r \<or> (r = 0 \<and> 0 \<le> c)) \<longrightarrow> C g ! r ! c = C_ref g ! r ! c)"
    unfolding compare_results_def by (rule compare_from_zero_iff) simp
  also have "\<dots> \<longleftrightarrow> (\<forall>i j. i < n \<and> j < n \<longrightarrow> C g ! i ! j = C_ref g ! i ! j)"
    by auto
  also have "\<dots> \<longleftrightarrow> C g = C_ref g"
    by (rule square_eq_iff[OF assms, symmetric])
  finally show ?thesis .
qed

lemma assembled_eq_ref_iff:
  assumes "n < 2147483648" "0 < p" "p < 2147483648"
  shows "assembled n p e g = ref_rows n g 0 n \<longleftrightarrow>
     (\<forall>j. j < p \<longrightarrow> rows_of (assembled n p e g) (work_range n p j) =
                       rows_of (ref_rows n g 0 n) (work_range n p j))"
proof
  assume "assembled n p e g = ref_rows n g 0 n"
  then show "\<forall>j. j < p \<longrightarrow> rows_of (assembled n p e g) (work_range n p j) =
      rows_of (ref_rows n g 0 n) (work_range n p j)"
    by simp
next
  assume h: "\<forall>j. j < p \<longrightarrow> rows_of (assembled n p e g) (work_range n p j) =
      rows_of (ref_rows n g 0 n) (work_range n p j)"
  have wr: "work_range n p j = (first_row n p j, first_row n p (Suc j))" if "j < p" for j
    using assms(1,3) that by (rule work_range_eq)
  have le: "first_row n p j \<le> first_row n p (Suc j)" "first_row n p (Suc j) \<le> n" if "j < p" for j
    using first_row_step[of n p j] first_row_le[OF assms(2), of "Suc j" n] that by simp_all
  have blk: "block_rows n (first_row n p j) (first_row n p (Suc j)) (fst (worker_read n p e g j)) =
      ref_rows n g (first_row n p j) (first_row n p (Suc j))" if "j < p" for j
  proof -
    have "rows_of (assembled n p e g) (work_range n p j) =
        block_rows n (first_row n p j) (first_row n p (Suc j)) (fst (worker_read n p e g j))"
      using assembled_rows[OF assms(1,3) that, of e g] by (simp add: rows_of_def wr[OF that])
    moreover have "rows_of (ref_rows n g 0 n) (work_range n p j) =
        ref_rows n g (first_row n p j) (first_row n p (Suc j))"
      using rows_of_ref_rows[OF le[OF that], of g] by (simp add: wr[OF that])
    ultimately show ?thesis using h that by simp
  qed
  have "assembled n p e g =
      concat (map (\<lambda>i. ref_rows n g (first_row n p i) (first_row n p (Suc i))) [0..<p])"
    unfolding assembled_blocks[OF assms(1,3)]
    by (rule arg_cong[where f = concat], rule map_cong) (simp_all add: blk)
  then show "assembled n p e g = ref_rows n g 0 n"
    by (simp add: concat_ref_rows first_row_p[OF assms(2)])
qed

section \<open>The compute kernels\<close>

text \<open>
  Claim C4. Let \<open>[start, end)\<close> be the range of worker \<open>i\<close>, \<open>r\<close> a row in it and \<open>c < n\<close> a
  column. The serial reference stores in \<open>C_ref[r][c]\<close>, and the worker stores in its
  output buffer at the position of \<open>(r, c)\<close>, the sum over \<open>k = 0, \<dots>, n - 1\<close> of
  \<open>A[r][k] * B[k][c]\<close> in the arithmetic of C \<open>int\<close>s. Whenever the sum of the signed
  values lies in the range of \<open>int\<close>, both cells hold exactly that integer.
\<close>

theorem compute_kernels_correct:
  assumes "n < 2147483648" "p < 2147483648" "i < p"
    and "work_range n p i = (start, end)" "start \<le> r" "r < end" "c < n"
    and "square n (C_ref g)" "length outbuf0 = (end - start) * n"
  shows "r < n
     \<and> C_ref (multiply_reference n g) ! r ! c = (\<Sum>k = 0..<n. A g ! r ! k * B g ! k ! c)
     \<and> child_compute n g start end outbuf0 ! ((r - start) * n + c) =
         (\<Sum>k = 0..<n. A g ! r ! k * B g ! k ! c)
     \<and> (- 2147483648 \<le> (\<Sum>k = 0..<n. sint (A g ! r ! k) * sint (B g ! k ! c))
          \<and> (\<Sum>k = 0..<n. sint (A g ! r ! k) * sint (B g ! k ! c)) < 2147483648 \<longrightarrow>
         sint (C_ref (multiply_reference n g) ! r ! c) =
           (\<Sum>k = 0..<n. sint (A g ! r ! k) * sint (B g ! k ! c))
         \<and> sint (child_compute n g start end outbuf0 ! ((r - start) * n + c)) =
           (\<Sum>k = 0..<n. sint (A g ! r ! k) * sint (B g ! k ! c)))"
proof -
  have wr: "work_range n p i = (first_row n p i, first_row n p (Suc i))"
    using assms(1-3) by (rule work_range_eq)
  have p: "0 < p" using assms(3) by simp
  have "end \<le> n"
    using first_row_le[OF p, of "Suc i" n] assms(3,4) wr by simp
  then have rn: "r < n" using assms(6) by simp
  have se: "start \<le> end" using assms(5,6) by simp
  have ref: "C_ref (multiply_reference n g) ! r ! c = acc_upto (A g) (B g) r c n"
    using rn assms(7) by (simp add: multiply_reference_eq[OF assms(8)])
  have k: "r - start < length [start..<end]" using assms(5,6) by simp
  have "child_compute n g start end outbuf0 ! ((r - start) * n + c) =
      (\<lambda>r c. acc_upto (A g) (B g) r c n) ([start..<end] ! (r - start)) c"
    unfolding child_compute_eq[OF se assms(9)] using k assms(7) by (rule nth_concat_rows)
  then have kid: "child_compute n g start end outbuf0 ! ((r - start) * n + c) = acc_upto (A g) (B g) r c n"
    using assms(5,6) by simp
  show ?thesis
    unfolding ref kid using rn acc_upto_exact[where m = n and a = "A g" and r = r and b = "B g" and c = c]
    by (simp add: acc_upto_sum)
qed

theorem compute_kernels_correct_witness:
  "work_range 3 2 1 = (2, 3)
   \<and> C_ref (multiply_reference 3 (init_matrices 3 (startup 3))) ! 2 ! 1 = 16
   \<and> child_compute 3 (init_matrices 3 (startup 3)) 2 3 [7, 7, 7] ! ((2 - 2) * 3 + 1) = 16
   \<and> (\<Sum>k = 0..<3. A (init_matrices 3 (startup 3)) ! 2 ! k * B (init_matrices 3 (startup 3)) ! k ! 1) = 16"
proof -
  let ?g = "init_matrices 3 (startup 3)"
  have wr: "work_range 3 2 1 = (2, 3)"
    by (simp add: work_range_def get_work_range_def c_div_def c_mod_def word_sless_alt
        signed_divide_int_def signed_modulo_int_def)
  have sq: "square 3 (C_ref ?g)"
    by (simp add: init_startup square_zero)
  have s: "(\<Sum>k = 0..<3. A ?g ! 2 ! k * B ?g ! k ! 1) = 16"
    by (simp add: init_startup sum.atLeast0_lessThan_Suc eval_nat_numeral)
  have h: "(3 :: nat) < 2147483648" "(2 :: nat) < 2147483648" "(1 :: nat) < 2" "(2 :: nat) \<le> 2"
      "(2 :: nat) < 3" "(1 :: nat) < 3" "length [7, 7, 7 :: cint] = (3 - 2) * 3"
    by simp_all
  show ?thesis
    using compute_kernels_correct[OF h(1-3) wr h(4-6) sq h(7)] wr s by simp
qed

section \<open>The distributed result against the reference\<close>

text \<open>
  Claim C1. Take any matrices \<open>A\<close> and \<open>B\<close> in the globals \<open>g0\<close> (with \<open>C\<close> and \<open>C_ref\<close> of
  size \<open>n\<close> by \<open>n\<close>, and \<open>n\<close> small enough for every byte count to fit an \<open>int\<close>, as
  \<open>N = 10\<close> is), and any run of \<open>main\<close> from there in which every \<open>pipe\<close> and \<open>fork\<close>
  succeeds. If the parent reports no failed read, the matrix \<open>C\<close> it assembled from the
  \<open>p\<close> workers' blocks equals \<open>C_ref\<close>, the result of \<open>multiply_reference\<close> on the same
  inputs, element for element, and the verifier reports success. No failed read is
  reported when every \<open>write\<close> and \<open>read\<close> call moves at least one byte.
\<close>

theorem distributed_equals_reference:
  assumes "4 * n * n < 2147483648" "0 < p" "p < 2147483648"
    and "square n (C g0)" "square n (C_ref g0)"
    and "\<forall>j. j < p \<longrightarrow> 0 \<le> pipe_ret e j \<and> 0 \<le> fork_ret e j"
  shows "C_ref (final (main_from n p e g0)) = C_ref (multiply_reference n g0)
       \<and> A (final (main_from n p e g0)) = A g0 \<and> B (final (main_from n p e g0)) = B g0
       \<and> ((\<forall>j. j < p \<longrightarrow> Parent_read_failed j \<notin> set (console (main_from n p e g0))) \<longrightarrow>
             C (final (main_from n p e g0)) = C_ref (final (main_from n p e g0))
           \<and> (\<forall>i j. i < n \<and> j < n \<longrightarrow>
                 C (final (main_from n p e g0)) ! i ! j = C_ref (multiply_reference n g0) ! i ! j)
           \<and> compare_results n (final (main_from n p e g0)) = 0
           \<and> last (console (main_from n p e g0)) = Success)
       \<and> ((\<forall>j k. j < p \<longrightarrow> 0 < write_ret e j k \<and> 0 < read_ret e j k) \<longrightarrow>
             (\<forall>j. j < p \<longrightarrow> Parent_read_failed j \<notin> set (console (main_from n p e g0))))"
proof -
  let ?g = "multiply_reference n g0"
  have n: "n < 2147483648"
    using assms(1) by (rule fits_int)
  have pf: "\<forall>i. i < p \<longrightarrow> 0 \<le> pipe_ret e i" "\<forall>i. i < p \<longrightarrow> 0 \<le> fork_ret e i"
    using assms(6) by auto
  note run = main_from_run[OF n assms(2-5) pf]
  note fr = multiply_reference_frame[OF assms(5)]
  have msg: "Parent_read_failed j \<in> set (console (main_from n p e g0)) \<longleftrightarrow>
      fst (snd (worker_read n p e ?g j)) < expected_bytes n p j" if "j < p" for j
    using read_failed_in_messages[OF n assms(3) that, of e ?g] by (simp add: run)
  have le: "fst (snd (worker_read n p e ?g j)) \<le> expected_bytes n p j" if "j < p" for j
    using worker_read_result[OF n assms(3) that, where e = e and g = ?g]
    by (auto split: prod.splits)
  have quiet: "C (final (main_from n p e g0)) = C_ref (final (main_from n p e g0))
      \<and> (\<forall>i j. i < n \<and> j < n \<longrightarrow>
            C (final (main_from n p e g0)) ! i ! j = C_ref (multiply_reference n g0) ! i ! j)
      \<and> compare_results n (final (main_from n p e g0)) = 0
      \<and> last (console (main_from n p e g0)) = Success"
    if none: "\<forall>j. j < p \<longrightarrow> Parent_read_failed j \<notin> set (console (main_from n p e g0))"
  proof -
    have "\<forall>j. j < p \<longrightarrow> fst (snd (worker_read n p e ?g j)) = expected_bytes n p j"
      using none msg le by (simp add: order_le_less)
    then have "assembled n p e ?g = ref_rows n ?g 0 n"
      by (rule assembled_complete[OF n assms(2,3)])
    then have asm: "assembled n p e ?g = C_ref ?g"
      by (simp add: fr ref_rows_def)
    have "compare_results n (?g\<lparr>C := C_ref ?g\<rparr>) = 0"
      unfolding compare_results_def by (subst compare_from_zero_iff) simp_all
    then show ?thesis
      by (simp add: run asm)
  qed
  have steady: "\<forall>j. j < p \<longrightarrow> Parent_read_failed j \<notin> set (console (main_from n p e g0))"
    if env: "\<forall>j k. j < p \<longrightarrow> 0 < write_ret e j k \<and> 0 < read_ret e j k"
  proof (intro allI impI)
    fix j assume j: "j < p"
    have "fst (snd (worker_read n p e ?g j)) = expected_bytes n p j"
      using worker_read_result[OF n assms(3) j, where e = e and g = ?g] env j
      by (auto split: prod.splits)
    then show "Parent_read_failed j \<notin> set (console (main_from n p e g0))"
      using msg[OF j] by simp
  qed
  have "C_ref (final (main_from n p e g0)) = C_ref ?g" "A (final (main_from n p e g0)) = A g0"
    "B (final (main_from n p e g0)) = B g0"
    by (simp_all add: run fr)
  then show ?thesis
    using quiet steady by blast
qed

theorem distributed_equals_reference_witness:
  "4 * N * N < 2147483648 \<and> 0 < P \<and> P < 2147483648
   \<and> square N (C (init_matrices N (startup N))) \<and> square N (C_ref (init_matrices N (startup N)))
   \<and> C (final (main_from N P chunky_env (init_matrices N (startup N)))) =
      C_ref (final (main_from N P chunky_env (init_matrices N (startup N))))
   \<and> compare_results N (final (main_from N P chunky_env (init_matrices N (startup N)))) = 0"
proof -
  have h: "4 * N * N < 2147483648" "0 < P" "P < 2147483648"
    by (simp_all add: N_def P_def)
  have sq: "square N (C (init_matrices N (startup N)))" "square N (C_ref (init_matrices N (startup N)))"
    by (simp_all add: init_startup square_zero)
  have env: "\<forall>j. j < P \<longrightarrow> 0 \<le> pipe_ret chunky_env j \<and> 0 \<le> fork_ret chunky_env j"
    by (simp add: chunky_env_def)
  have steady: "\<forall>j k. j < P \<longrightarrow> 0 < write_ret chunky_env j k \<and> 0 < read_ret chunky_env j k"
    by (simp add: chunky_env_def)
  note t = distributed_equals_reference[OF h sq env]
  from t steady have "\<forall>j. j < P \<longrightarrow>
      Parent_read_failed j \<notin> set (console (main_from N P chunky_env (init_matrices N (startup N))))"
    by blast
  with t have "C (final (main_from N P chunky_env (init_matrices N (startup N)))) =
      C_ref (final (main_from N P chunky_env (init_matrices N (startup N))))
    \<and> compare_results N (final (main_from N P chunky_env (init_matrices N (startup N)))) = 0"
    by blast
  then show ?thesis
    using h sq by simp
qed

text \<open>
  Claim C6. With \<open>N = 10\<close> and \<open>P = 4\<close> the partitioner gives the workers \<open>0, \<dots>, 3\<close> the
  ranges \<open>[0,3)\<close>, \<open>[3,6)\<close>, \<open>[6,8)\<close>, \<open>[8,10)\<close>, of 3, 3, 2 and 2 rows. In every run of
  \<open>main\<close> whose kernel calls all make progress, the inputs are \<open>A[i][j] = i + j + 1\<close> and
  \<open>B[i][j] = 2\<close> on the diagonal and 1 elsewhere, the distributed result equals the serial
  result at every cell, and the verifier reports success.
\<close>

theorem concrete_scenario:
  "get_work_range (of_nat N) (of_nat P) 0 = (0, 3)
   \<and> get_work_range (of_nat N) (of_nat P) 1 = (3, 6)
   \<and> get_work_range (of_nat N) (of_nat P) 2 = (6, 8)
   \<and> get_work_range (of_nat N) (of_nat P) 3 = (8, 10)
   \<and> map (\<lambda>i. range_size (get_work_range (of_nat N) (of_nat P) i)) [0, 1, 2, 3] = [3, 3, 2, 2]
   \<and> ((\<forall>i k. i < P \<longrightarrow> 0 \<le> pipe_ret e i \<and> 0 \<le> fork_ret e i
                        \<and> 0 < write_ret e i k \<and> 0 < read_ret e i k) \<longrightarrow>
        (\<forall>i j. i < N \<and> j < N \<longrightarrow>
            A (final (main N P e)) ! i ! j = of_nat i + of_nat j + 1
          \<and> B (final (main N P e)) ! i ! j = (if i = j then 2 else 1)
          \<and> C (final (main N P e)) ! i ! j = C_ref (final (main N P e)) ! i ! j)
        \<and> C (final (main N P e)) = C_ref (multiply_reference N (init_matrices N (startup N)))
        \<and> C_ref (final (main N P e)) = C_ref (multiply_reference N (init_matrices N (startup N)))
        \<and> compare_results N (final (main N P e)) = 0
        \<and> last (console (main N P e)) = Success
        \<and> exit_status (main N P e) = 0)"
proof (intro conjI impI)
  show "map (\<lambda>i. range_size (get_work_range (of_nat N) (of_nat P) i)) [0, 1, 2, 3] = [3, 3, 2, 2]"
    by (simp add: get_work_range_10_4 range_size_def)
next
  assume env: "\<forall>i k. i < P \<longrightarrow> 0 \<le> pipe_ret e i \<and> 0 \<le> fork_ret e i
      \<and> 0 < write_ret e i k \<and> 0 < read_ret e i k"
  let ?g0 = "init_matrices N (startup N)"
  have h: "N < 2147483648" "0 < P" "P < 2147483648"
    by (simp_all add: N_def P_def)
  have sq: "square N (C ?g0)" "square N (C_ref ?g0)"
    by (simp_all add: init_startup square_zero)
  have run: "main N P e =
     \<lparr>exit_status = 0,
       console = [Banner N P, Result_matrix (ref_rows N ?g0 0 N), Reference_matrix (ref_rows N ?g0 0 N), Success],
       child_console = replicate P [],
       final = ?g0\<lparr>C := ref_rows N ?g0 0 N, C_ref := ref_rows N ?g0 0 N\<rparr>\<rparr>"
    unfolding main_def by (rule main_from_reliable[OF h sq env])
  have ref: "C_ref (multiply_reference N ?g0) = ref_rows N ?g0 0 N"
    by (rule multiply_reference_frame(4)[OF sq(2)])
  have cmp: "compare_results N (?g0\<lparr>C := ref_rows N ?g0 0 N, C_ref := ref_rows N ?g0 0 N\<rparr>) = 0"
    unfolding compare_results_def by (subst compare_from_zero_iff) simp_all
  show "\<forall>i j. i < N \<and> j < N \<longrightarrow>
            A (final (main N P e)) ! i ! j = of_nat i + of_nat j + 1
          \<and> B (final (main N P e)) ! i ! j = (if i = j then 2 else 1)
          \<and> C (final (main N P e)) ! i ! j = C_ref (final (main N P e)) ! i ! j"
    unfolding run by (simp add: init_startup)
  show "C (final (main N P e)) = C_ref (multiply_reference N ?g0)"
    unfolding run ref by simp
  show "C_ref (final (main N P e)) = C_ref (multiply_reference N ?g0)"
    unfolding run ref by simp
  show "compare_results N (final (main N P e)) = 0"
    unfolding run using cmp by simp
  show "last (console (main N P e)) = Success"
    unfolding run by simp
  show "exit_status (main N P e) = 0"
    unfolding run by simp
qed (rule get_work_range_10_4)+

theorem concrete_scenario_witness:
  "C (final (main N P chunky_env)) = C_ref (final (main N P chunky_env))
   \<and> C (final (main N P chunky_env)) ! 9 ! 9 = 164
   \<and> compare_results N (final (main N P chunky_env)) = 0
   \<and> last (console (main N P chunky_env)) = Success"
proof -
  have env: "\<forall>i k. i < P \<longrightarrow> 0 \<le> pipe_ret chunky_env i \<and> 0 \<le> fork_ret chunky_env i
      \<and> 0 < write_ret chunky_env i k \<and> 0 < read_ret chunky_env i k"
    by (simp add: chunky_env_def)
  have cell: "C_ref (multiply_reference N (init_matrices N (startup N))) ! 9 ! 9 = 164"
    by code_simp
  show ?thesis
    using concrete_scenario[of chunky_env] env cell by simp
qed

section \<open>Short transfers and empty ranges\<close>

text \<open>
  Claim C7, amended. Suppose the parent's read loop for worker \<open>i\<close> ends before \<open>offset\<close>
  has reached the expected byte count. Then the parent prints the failure for worker
  \<open>i\<close> and goes on: the run ends with exit status 0; a failure is printed for exactly the
  workers whose read loop ended short; every worker whose read loop got its full count
  has its rows of \<open>C\<close> equal to those of \<open>C_ref\<close>; the rows of every worker are read from
  its \<open>inbuf\<close> as it stands, the bytes received followed by what the buffer held before
  (nothing is zeroed). The verification compares what was copied: \<open>compare_results\<close>
  returns 0 exactly when \<open>C\<close> equals \<open>C_ref\<close>, the verdict is the error line exactly when
  the rows copied for some short worker differ from the reference rows, and it is the
  success line exactly when the rows copied for every short worker happen to equal
  them.
\<close>

theorem short_read_verdict:
  assumes "4 * n * n < 2147483648" "0 < p" "p < 2147483648"
    and "square n (C g0)" "square n (C_ref g0)"
    and "\<forall>j. j < p \<longrightarrow> 0 \<le> pipe_ret e j \<and> 0 \<le> fork_ret e j"
    and "i < p"
    and "fst (snd (worker_read n p e (multiply_reference n g0) i)) < expected_bytes n p i"
  shows "Parent_read_failed i \<in> set (console (main_from n p e g0))
     \<and> exit_status (main_from n p e g0) = 0
     \<and> (\<forall>j. j < p \<longrightarrow>
           (Parent_read_failed j \<in> set (console (main_from n p e g0)) \<longleftrightarrow>
            fst (snd (worker_read n p e (multiply_reference n g0) j)) < expected_bytes n p j))
     \<and> (\<forall>j. j < p \<and> fst (snd (worker_read n p e (multiply_reference n g0) j)) = expected_bytes n p j \<longrightarrow>
           rows_of (C (final (main_from n p e g0))) (work_range n p j) =
           rows_of (C_ref (final (main_from n p e g0))) (work_range n p j))
     \<and> (\<forall>j. j < p \<longrightarrow>
           rows_of (C (final (main_from n p e g0))) (work_range n p j) =
           block_rows n (fst (work_range n p j)) (snd (work_range n p j))
             (take (fst (snd (worker_read n p e (multiply_reference n g0) j)))
                (worker_stream n p (multiply_reference n g0) j)
              @ drop (fst (snd (worker_read n p e (multiply_reference n g0) j)))
                  (map (parent_stack e j) [0..<expected_bytes n p j])))
     \<and> C_ref (final (main_from n p e g0)) = C_ref (multiply_reference n g0)
     \<and> (compare_results n (final (main_from n p e g0)) = 0 \<longleftrightarrow>
           C (final (main_from n p e g0)) = C_ref (final (main_from n p e g0)))
     \<and> (last (console (main_from n p e g0)) = Success \<longleftrightarrow>
           (\<forall>j. j < p \<and> fst (snd (worker_read n p e (multiply_reference n g0) j)) < expected_bytes n p j \<longrightarrow>
              rows_of (C (final (main_from n p e g0))) (work_range n p j) =
              rows_of (C_ref (final (main_from n p e g0))) (work_range n p j)))
     \<and> (last (console (main_from n p e g0)) = Error_differs \<longleftrightarrow>
           (\<exists>j. j < p \<and> fst (snd (worker_read n p e (multiply_reference n g0) j)) < expected_bytes n p j
              \<and> rows_of (C (final (main_from n p e g0))) (work_range n p j) \<noteq>
                rows_of (C_ref (final (main_from n p e g0))) (work_range n p j)))"
proof -
  let ?g = "multiply_reference n g0"
  let ?r = "main_from n p e g0"
  let ?short = "\<lambda>j. fst (snd (worker_read n p e ?g j)) < expected_bytes n p j"
  let ?same = "\<lambda>j. rows_of (C (final ?r)) (work_range n p j) = rows_of (C_ref (final ?r)) (work_range n p j)"
  have n: "n < 2147483648"
    using assms(1) by (rule fits_int)
  have pf: "\<forall>i. i < p \<longrightarrow> 0 \<le> pipe_ret e i" "\<forall>i. i < p \<longrightarrow> 0 \<le> fork_ret e i"
    using assms(6) by auto
  note run = main_from_run[OF n assms(2-5) pf]
  have wr: "work_range n p j = (first_row n p j, first_row n p (Suc j))" if "j < p" for j
    using n assms(3) that by (rule work_range_eq)
  have le: "first_row n p j \<le> first_row n p (Suc j)" "first_row n p (Suc j) \<le> n" if "j < p" for j
    using first_row_step[of n p j] first_row_le[OF assms(2), of "Suc j" n] that by simp_all
  have msg: "Parent_read_failed j \<in> set (console ?r) \<longleftrightarrow> ?short j" if "j < p" for j
    using read_failed_in_messages[OF n assms(3) that, of e ?g] by (simp add: run)
  have rows: "rows_of (C (final ?r)) (work_range n p j) =
      block_rows n (first_row n p j) (first_row n p (Suc j)) (fst (worker_read n p e ?g j))"
    if "j < p" for j
    using assembled_rows[OF n assms(3) that, of e ?g] by (simp add: run rows_of_def wr[OF that])
  have cfin: "C (final ?r) = assembled n p e ?g"
    by (simp add: run)
  have cref: "C_ref (final ?r) = ref_rows n ?g 0 n"
    by (simp add: run multiply_reference_frame[OF assms(5)] ref_rows_def)
  have ok: "?same j" if "j < p" "fst (snd (worker_read n p e ?g j)) = expected_bytes n p j" for j
    unfolding rows[OF that(1)] cref
    using worker_read_complete[OF n assms(3) that] rows_of_ref_rows[OF le[OF that(1)], of ?g]
    by (simp add: wr[OF that(1)])
  have off_le: "fst (snd (worker_read n p e ?g j)) \<le> expected_bytes n p j" if "j < p" for j
    using worker_read_result[OF n assms(3) that, where e = e and g = ?g]
    by (auto split: prod.splits)
  have inbuf: "fst (worker_read n p e ?g j) =
      take (fst (snd (worker_read n p e ?g j))) (worker_stream n p ?g j)
      @ drop (fst (snd (worker_read n p e ?g j))) (map (parent_stack e j) [0..<expected_bytes n p j])"
    if "j < p" for j
    using worker_read_result[OF n assms(3) that, where e = e and g = ?g]
    by (auto split: prod.splits)
  have block: "rows_of (C (final ?r)) (work_range n p j) =
      block_rows n (fst (work_range n p j)) (snd (work_range n p j))
        (take (fst (snd (worker_read n p e ?g j))) (worker_stream n p ?g j)
         @ drop (fst (snd (worker_read n p e ?g j))) (map (parent_stack e j) [0..<expected_bytes n p j]))"
    if "j < p" for j
    using rows[OF that] inbuf[OF that] by (simp add: wr[OF that])
  have sq: "square n (C (final ?r))" "square n (C_ref (final ?r))"
    unfolding cfin cref by (rule square_assembled[OF n assms(2,3)], rule square_ref_rows)
  have cmp: "compare_results n (final ?r) = 0 \<longleftrightarrow> C (final ?r) = C_ref (final ?r)"
    using sq by (rule compare_results_eq_iff)
  have all: "C (final ?r) = C_ref (final ?r) \<longleftrightarrow> (\<forall>j. j < p \<longrightarrow> ?same j)"
    unfolding cfin cref by (rule assembled_eq_ref_iff[OF n assms(2,3)])
  have short_only: "(\<forall>j. j < p \<longrightarrow> ?same j) \<longleftrightarrow> (\<forall>j. j < p \<and> ?short j \<longrightarrow> ?same j)"
    using ok off_le by (metis order_le_less)
  have verdict: "last (console ?r) = (if compare_results n (final ?r) = 0 then Success else Error_differs)"
    by (simp add: run)
  have success: "last (console ?r) = Success \<longleftrightarrow> (\<forall>j. j < p \<and> ?short j \<longrightarrow> ?same j)"
    using verdict cmp all short_only by (simp split: if_splits)
  have error: "last (console ?r) = Error_differs \<longleftrightarrow> (\<exists>j. j < p \<and> ?short j \<and> \<not> ?same j)"
    using verdict cmp all short_only by (auto split: if_splits)
  have "Parent_read_failed i \<in> set (console ?r)"
    using msg[OF assms(7)] assms(8) by simp
  moreover have "exit_status ?r = 0"
    by (simp add: run)
  moreover have "C_ref (final ?r) = C_ref ?g"
    by (simp add: run)
  ultimately show ?thesis
    using msg ok block cmp success error by blast
qed

theorem short_read_verdict_witness:
  "fst (snd (worker_read 3 2 faulty_env (multiply_reference 3 (init_matrices 3 (startup 3))) 0)) = 10
   \<and> expected_bytes 3 2 0 = 24
   \<and> Parent_read_failed 0 \<in> set (console (main_from 3 2 faulty_env (init_matrices 3 (startup 3))))
   \<and> Parent_read_failed 1 \<notin> set (console (main_from 3 2 faulty_env (init_matrices 3 (startup 3))))
   \<and> exit_status (main_from 3 2 faulty_env (init_matrices 3 (startup 3))) = 0
   \<and> rows_of (C (final (main_from 3 2 faulty_env (init_matrices 3 (startup 3))))) (work_range 3 2 1) =
      rows_of (C_ref (final (main_from 3 2 faulty_env (init_matrices 3 (startup 3))))) (work_range 3 2 1)
   \<and> rows_of (C (final (main_from 3 2 faulty_env (init_matrices 3 (startup 3))))) (work_range 3 2 0) \<noteq>
      rows_of (C_ref (final (main_from 3 2 faulty_env (init_matrices 3 (startup 3))))) (work_range 3 2 0)
   \<and> last (console (main_from 3 2 faulty_env (init_matrices 3 (startup 3)))) = Error_differs
   \<and> compare_results 3 (final (main_from 3 2 faulty_env (init_matrices 3 (startup 3)))) \<noteq> 0"
proof -
  let ?g0 = "init_matrices 3 (startup 3)"
  let ?r = "main_from 3 2 faulty_env ?g0"
  have off0: "fst (snd (worker_read 3 2 faulty_env (multiply_reference 3 ?g0) 0)) = 10"
    by code_simp
  have exp0: "expected_bytes 3 2 0 = 24"
    by code_simp
  have off1: "fst (snd (worker_read 3 2 faulty_env (multiply_reference 3 ?g0) 1)) = expected_bytes 3 2 1"
    by code_simp
  have differ: "rows_of (C (final ?r)) (work_range 3 2 0) \<noteq> rows_of (C_ref (final ?r)) (work_range 3 2 0)"
    by code_simp
  have h: "4 * 3 * 3 < (2147483648 :: nat)" "(0 :: nat) < 2" "(2 :: nat) < 2147483648" "(0 :: nat) < 2"
    by simp_all
  have sq: "square 3 (C ?g0)" "square 3 (C_ref ?g0)"
    by (simp_all add: init_startup square_zero)
  have env: "\<forall>j. j < 2 \<longrightarrow> 0 \<le> pipe_ret faulty_env j \<and> 0 \<le> fork_ret faulty_env j"
    by (simp add: faulty_env_def chunky_env_def)
  have short: "fst (snd (worker_read 3 2 faulty_env (multiply_reference 3 ?g0) 0)) < expected_bytes 3 2 0"
    by (simp add: off0 exp0)
  note t = short_read_verdict[OF h(1-3) sq env h(4) short]
  from t have "Parent_read_failed 0 \<in> set (console ?r)"
    by blast
  moreover from t have "exit_status ?r = 0"
    by blast
  moreover from t have "(1 :: nat) < 2 \<longrightarrow>
      (Parent_read_failed 1 \<in> set (console ?r) \<longleftrightarrow>
       fst (snd (worker_read 3 2 faulty_env (multiply_reference 3 ?g0) 1)) < expected_bytes 3 2 1)"
    by blast
  moreover from t have "(1 :: nat) < 2
      \<and> fst (snd (worker_read 3 2 faulty_env (multiply_reference 3 ?g0) 1)) = expected_bytes 3 2 1 \<longrightarrow>
      rows_of (C (final ?r)) (work_range 3 2 1) = rows_of (C_ref (final ?r)) (work_range 3 2 1)"
    by blast
  moreover from t h(4) short differ have "last (console ?r) = Error_differs"
    by blast
  moreover from t differ have "compare_results 3 (final ?r) \<noteq> 0"
    by metis
  ultimately show ?thesis
    using off0 exp0 off1 differ by simp
qed

text \<open>
  Claim C7 as stated does not hold: a shortfall need not surface in the verification.
  With \<open>n = 3\<close> and two workers, worker 1 sends the row 15, 16, 17 in 12 bytes. The parent
  receives 10 of them and then the end of the stream; the two bytes missing are the
  high bytes of 17, both zero, and \<open>inbuf\<close> held zeros there. The failure is printed,
  and the run ends with \<open>C\<close> equal to \<open>C_ref\<close> and the success line.
\<close>

theorem short_read_can_end_in_success:
  "fst (snd (worker_read 3 2 lucky_env (multiply_reference 3 (init_matrices 3 (startup 3))) 1)) = 10
   \<and> expected_bytes 3 2 1 = 12
   \<and> Parent_read_failed 1 \<in> set (console (main_from 3 2 lucky_env (init_matrices 3 (startup 3))))
   \<and> C (final (main_from 3 2 lucky_env (init_matrices 3 (startup 3)))) =
      C_ref (final (main_from 3 2 lucky_env (init_matrices 3 (startup 3))))
   \<and> compare_results 3 (final (main_from 3 2 lucky_env (init_matrices 3 (startup 3)))) = 0
   \<and> last (console (main_from 3 2 lucky_env (init_matrices 3 (startup 3)))) = Success"
  by code_simp

text \<open>
  Claim C8. For a worker whose range is empty (\<open>start = end\<close>) the expected byte count
  is 0. The child makes no \<open>write\<close> call, leaves its channel empty and prints nothing;
  the parent's read loop makes no \<open>read\<close> call, leaves the channel untouched and prints
  nothing; and the round of the collecting loop changes neither the globals nor the
  console.
\<close>

theorem zero_length_range:
  assumes "fst (work_range n p i) = snd (work_range n p i)"
  shows "expected_bytes n p i = 0
     \<and> child n p e g i = (0, 0, [], [])
     \<and> parent_read n p e i chan out = ([], 0, 0, chan, out)
     \<and> collect n p e chans i (g, out) = (g, out)"
proof -
  obtain s where wr: "work_range n p i = (s, s)"
    using assms by (cases "work_range n p i") simp
  have c: "child n p e g i = (0, 0, [], [])"
    by (simp add: child_def wr write_loop.simps)
  have r: "parent_read n p e i ch out = ([], 0, 0, ch, out)" for ch
    by (simp add: parent_read_def wr read_loop.simps)
  have "collect n p e chans i (g, out) = (g, out)"
    by (simp add: collect_def r wr copy_block_def)
  then show ?thesis
    using c r by (simp add: expected_bytes_def wr)
qed

theorem zero_length_range_witness:
  "work_range 2 4 2 = (2, 2)
   \<and> child 2 4 chunky_env (startup 2) 2 = (0, 0, [], [])
   \<and> parent_read 2 4 chunky_env 2 [] [Banner 2 4] = ([], 0, 0, [], [Banner 2 4])
   \<and> collect 2 4 chunky_env (\<lambda>i. []) 2 (startup 2, [Banner 2 4]) = (startup 2, [Banner 2 4])"
proof -
  have wr: "work_range 2 4 2 = (2, 2)"
    by (simp add: work_range_def get_work_range_def c_div_def c_mod_def word_sless_alt
        signed_divide_int_def signed_modulo_int_def)
  then have h: "fst (work_range 2 4 2) = snd (work_range 2 4 2)"
    by simp
  show ?thesis
    using zero_length_range[OF h, of chunky_env "startup 2" "[]" "[Banner 2 4]" "\<lambda>i. []"] wr
    by simp
qed

text \<open>
  Claim C9. The copy step of the round for worker \<open>i\<close>, whose range \<open>[start, end)\<close> lies
  within \<open>[0, n)\<close>, writes the rows \<open>start, \<dots>, end - 1\<close> of \<open>C\<close> from \<open>inbuf\<close> and nothing
  else: every other row of \<open>C\<close>, and \<open>A\<close>, \<open>B\<close> and \<open>C_ref\<close>, are as before.
\<close>

theorem copy_block_frame:
  assumes "n < 2147483648" "p < 2147483648" "i < p"
    and "work_range n p i = (start, end)" "square n (C g)"
  shows "fst (collect n p e chans i (g, out)) =
           copy_block n start end (fst (parent_read n p e i (chans i) out)) g
     \<and> A (copy_block n start end inbuf g) = A g
     \<and> B (copy_block n start end inbuf g) = B g
     \<and> C_ref (copy_block n start end inbuf g) = C_ref g
     \<and> start \<le> end \<and> end \<le> n
     \<and> length (C (copy_block n start end inbuf g)) = n
     \<and> (\<forall>r. r < n \<and> (r < start \<or> end \<le> r) \<longrightarrow>
           C (copy_block n start end inbuf g) ! r = C g ! r)
     \<and> (\<forall>r c. start \<le> r \<and> r < end \<and> c < n \<longrightarrow>
           C (copy_block n start end inbuf g) ! r ! c = load_int inbuf ((r - start) * n + c))"
proof -
  have wr: "work_range n p i = (first_row n p i, first_row n p (Suc i))"
    using assms(1-3) by (rule work_range_eq)
  have p: "0 < p" using assms(3) by simp
  have se: "start \<le> end" "end \<le> n"
    using first_row_step[of n p i] first_row_le[OF p, of "Suc i" n] assms(3,4) wr by simp_all
  have len: "length (C g) = n"
    using assms(5) by (rule square_length)
  let ?blk = "map (\<lambda>r. map (\<lambda>c. load_int inbuf ((r - start) * n + c)) [0..<n]) [start..<end]"
  have cb: "copy_block n start end inbuf g = g\<lparr>C := take start (C g) @ ?blk @ drop end (C g)\<rparr>"
    using se assms(5) by (rule copy_block_eq)
  have col: "fst (collect n p e chans i (g, out)) =
      copy_block n start end (fst (parent_read n p e i (chans i) out)) g"
    by (simp add: collect_def assms(4) split: prod.splits)
  have outside: "(take start (C g) @ ?blk @ drop end (C g)) ! r = C g ! r"
    if "r < n" "r < start \<or> end \<le> r" for r
  proof (cases "r < start")
    case True
    then show ?thesis using se len by (simp add: nth_append)
  next
    case False
    then have "end \<le> r" using that by simp
    moreover from this have "\<not> r - start < end - start" using se by simp
    ultimately show ?thesis using se len that by (simp add: nth_append)
  qed
  have inside: "(take start (C g) @ ?blk @ drop end (C g)) ! r ! c = load_int inbuf ((r - start) * n + c)"
    if "start \<le> r" "r < end" "c < n" for r c
  proof -
    have "r - start < end - start" using that by simp
    then show ?thesis using that se len by (simp add: nth_append)
  qed
  show ?thesis
    unfolding cb using col se len outside inside by (simp add: cb)
qed

theorem copy_block_frame_witness:
  "work_range 3 2 1 = (2, 3)
   \<and> C (copy_block 3 2 3 (ints_bytes [7, 8, 9])
        \<lparr>A = [], B = [], C = [[1, 1, 1], [2, 2, 2], [3, 3, 3]], C_ref = []\<rparr>) ! 0 = [1, 1, 1]
   \<and> C (copy_block 3 2 3 (ints_bytes [7, 8, 9])
        \<lparr>A = [], B = [], C = [[1, 1, 1], [2, 2, 2], [3, 3, 3]], C_ref = []\<rparr>) ! 1 = [2, 2, 2]
   \<and> C (copy_block 3 2 3 (ints_bytes [7, 8, 9])
        \<lparr>A = [], B = [], C = [[1, 1, 1], [2, 2, 2], [3, 3, 3]], C_ref = []\<rparr>) ! 2 ! 1 = 8
   \<and> C_ref (copy_block 3 2 3 (ints_bytes [7, 8, 9])
        \<lparr>A = [], B = [], C = [[1, 1, 1], [2, 2, 2], [3, 3, 3]], C_ref = []\<rparr>) = []"
proof -
  let ?g = "\<lparr>A = [], B = [], C = [[1, 1, 1], [2, 2, 2], [3, 3, 3 :: cint]], C_ref = []\<rparr>"
  let ?g' = "copy_block 3 2 3 (ints_bytes [7, 8, 9]) ?g"
  have wr: "work_range 3 2 1 = (2, 3)"
    by (simp add: work_range_def get_work_range_def c_div_def c_mod_def word_sless_alt
        signed_divide_int_def signed_modulo_int_def)
  have sq: "square 3 (C ?g)"
    by (simp add: square_def)
  have h: "(3 :: nat) < 2147483648" "(2 :: nat) < 2147483648" "(1 :: nat) < 2"
    by simp_all
  note f = copy_block_frame[OF h wr sq, where inbuf = "ints_bytes [7, 8, 9]"]
  from f have frame: "\<forall>r. r < 3 \<and> (r < 2 \<or> 3 \<le> r) \<longrightarrow> C ?g' ! r = C ?g ! r"
    by blast
  from f have block: "\<forall>r c. 2 \<le> r \<and> r < 3 \<and> c < 3 \<longrightarrow>
      C ?g' ! r ! c = load_int (ints_bytes [7, 8, 9]) ((r - 2) * 3 + c)"
    by blast
  from f have cref: "C_ref ?g' = C_ref ?g"
    by blast
  have "C ?g' ! 0 = C ?g ! 0" "C ?g' ! 1 = C ?g ! 1"
    using frame by simp_all
  moreover have "C ?g' ! 2 ! 1 = load_int (ints_bytes [7, 8, 9]) ((2 - 2) * 3 + 1)"
    using block by simp
  moreover have "load_int (ints_bytes [7, 8, 9]) 1 = 8"
    using load_int_ints_bytes[of 1 "[7, 8, 9]" "[]"] by simp
  ultimately show ?thesis
    using wr cref by simp
qed

section \<open>No overflow on the program's own inputs\<close>

text \<open>
  Claim C10. With \<open>N = 10\<close>, \<open>A[i][j] = i + j + 1\<close> and \<open>B[i][j] = 2\<close> on the diagonal and
  1 elsewhere: every product \<open>A[i][k] * B[k][j]\<close> is between 1 and 38, every partial sum
  of the accumulation is between 0 and 164, and the 32-bit accumulator holds exactly
  that integer after each iteration. Every cell of \<open>C_ref\<close> is \<open>11 i + j + 56\<close>, and so is
  every cell of \<open>C\<close> after a run whose kernel calls all make progress.
\<close>

theorem concrete_sums_fit_int:
  assumes "i < N" "j < N" "m \<le> N"
  shows "sint (acc_upto (A (init_matrices N (startup N))) (B (init_matrices N (startup N))) i j m) =
           (\<Sum>k = 0..<m. sint (A (init_matrices N (startup N)) ! i ! k)
                          * sint (B (init_matrices N (startup N)) ! k ! j))
     \<and> 0 \<le> (\<Sum>k = 0..<m. sint (A (init_matrices N (startup N)) ! i ! k)
                          * sint (B (init_matrices N (startup N)) ! k ! j))
     \<and> (\<Sum>k = 0..<m. sint (A (init_matrices N (startup N)) ! i ! k)
                          * sint (B (init_matrices N (startup N)) ! k ! j)) \<le> 164
     \<and> (\<forall>k. k < N \<longrightarrow>
           sint (A (init_matrices N (startup N)) ! i ! k * B (init_matrices N (startup N)) ! k ! j) =
             sint (A (init_matrices N (startup N)) ! i ! k) * sint (B (init_matrices N (startup N)) ! k ! j)
         \<and> 1 \<le> sint (A (init_matrices N (startup N)) ! i ! k) * sint (B (init_matrices N (startup N)) ! k ! j)
         \<and> sint (A (init_matrices N (startup N)) ! i ! k) * sint (B (init_matrices N (startup N)) ! k ! j) \<le> 38)
     \<and> C_ref (multiply_reference N (init_matrices N (startup N))) ! i ! j =
         acc_upto (A (init_matrices N (startup N))) (B (init_matrices N (startup N))) i j N
     \<and> sint (C_ref (multiply_reference N (init_matrices N (startup N))) ! i ! j) = 11 * int i + int j + 56
     \<and> ((\<forall>w k. w < P \<longrightarrow> 0 \<le> pipe_ret e w \<and> 0 \<le> fork_ret e w
                        \<and> 0 < write_ret e w k \<and> 0 < read_ret e w k) \<longrightarrow>
         sint (C (final (main N P e)) ! i ! j) = 11 * int i + int j + 56)"
proof -
  let ?g = "init_matrices N (startup N)"
  let ?S = "\<lambda>m. (\<Sum>k = 0..<m. sint (A ?g ! i ! k) * sint (B ?g ! k ! j))"
  have ij: "i < 10" "j < 10" "m \<le> 10"
    using assms by (simp_all add: N_def)
  have S: "?S m = ideal_sum i j m" if "m \<le> 10" for m
    using ij(1,2) that by (rule init_sum_ideal)
  have b: "0 \<le> ?S m" "?S m \<le> 164" if "m \<le> 10" for m
    using ideal_sum_bounds[OF ij(1,2) that] S[OF that] by simp_all
  have exact: "sint (acc_upto (A ?g) (B ?g) i j m) = ?S m" if "m \<le> 10" for m
    using b[OF that] by (intro acc_upto_exact) simp_all
  have prod: "sint (A ?g ! i ! k * B ?g ! k ! j) = sint (A ?g ! i ! k) * sint (B ?g ! k ! j)
      \<and> 1 \<le> sint (A ?g ! i ! k) * sint (B ?g ! k ! j)
      \<and> sint (A ?g ! i ! k) * sint (B ?g ! k ! j) \<le> 38" if "k < N" for k
  proof -
    have k: "k < 10" using that by (simp add: N_def)
    have r: "1 \<le> sint (A ?g ! i ! k) * sint (B ?g ! k ! j)"
        "sint (A ?g ! i ! k) * sint (B ?g ! k ! j) \<le> 38"
      using ij k by (simp_all add: sint_init_entries)
    have "A ?g ! i ! k * B ?g ! k ! j = word_of_int (sint (A ?g ! i ! k) * sint (B ?g ! k ! j))"
      by simp
    then have "sint (A ?g ! i ! k * B ?g ! k ! j) = sint (A ?g ! i ! k) * sint (B ?g ! k ! j)"
      using r by (simp only: sint_word_of_int_32)
    then show ?thesis using r by simp
  qed
  have sq: "square N (C ?g)" "square N (C_ref ?g)"
    by (simp_all add: init_startup square_zero)
  have cell: "C_ref (multiply_reference N ?g) ! i ! j = acc_upto (A ?g) (B ?g) i j N"
    using assms by (simp add: multiply_reference_eq[OF sq(2)])
  have "2 * ideal_sum i j 10 = 2 * (11 * int i + int j + 56)"
    using ij unfolding ideal_sum_closed by simp
  then have closed: "sint (acc_upto (A ?g) (B ?g) i j N) = 11 * int i + int j + 56"
    using exact[of 10] S[of 10] by (simp add: N_def)
  have run: "sint (C (final (main N P e)) ! i ! j) = 11 * int i + int j + 56"
    if env: "\<forall>w k. w < P \<longrightarrow> 0 \<le> pipe_ret e w \<and> 0 \<le> fork_ret e w
        \<and> 0 < write_ret e w k \<and> 0 < read_ret e w k"
  proof -
    have h: "N < 2147483648" "0 < P" "P < 2147483648"
      by (simp_all add: N_def P_def)
    have "C (final (main N P e)) = ref_rows N ?g 0 N"
      unfolding main_def by (simp add: main_from_reliable[OF h sq env])
    also have "\<dots> = C_ref (multiply_reference N ?g)"
      by (rule multiply_reference_frame(4)[OF sq(2), symmetric])
    finally show ?thesis using cell closed by simp
  qed
  show ?thesis
    using exact[OF ij(3)] b[OF ij(3)] prod cell closed run by (simp add: cell)
qed

theorem concrete_sums_fit_int_witness:
  "(9 :: nat) < N \<and> (10 :: nat) \<le> N
   \<and> sint (acc_upto (A (init_matrices N (startup N))) (B (init_matrices N (startup N))) 9 9 10) = 164
   \<and> sint (C_ref (multiply_reference N (init_matrices N (startup N))) ! 9 ! 9) = 164
   \<and> sint (C (final (main N P chunky_env)) ! 9 ! 9) = 164"
proof -
  have h: "(9 :: nat) < N" "(10 :: nat) \<le> N"
    by (simp_all add: N_def)
  have env: "\<forall>w k. w < P \<longrightarrow> 0 \<le> pipe_ret chunky_env w \<and> 0 \<le> fork_ret chunky_env w
      \<and> 0 < write_ret chunky_env w k \<and> 0 < read_ret chunky_env w k"
    by (simp add: chunky_env_def)
  note t = concrete_sums_fit_int[OF h(1) h(1) h(2), of chunky_env]
  from t env have "sint (C (final (main N P chunky_env)) ! 9 ! 9) = 11 * int 9 + int 9 + 56"
    by blast
  moreover from t have "sint (C_ref (multiply_reference N (init_matrices N (startup N))) ! 9 ! 9) = 11 * int 9 + int 9 + 56"
    by blast
  moreover from t have "C_ref (multiply_reference N (init_matrices N (startup N))) ! 9 ! 9 =
      acc_upto (A (init_matrices N (startup N))) (B (init_matrices N (startup N))) 9 9 N"
    by blast
  ultimately show ?thesis
    using h by (simp add: N_def)
qed

end
